theory Spec2Isabelle
  imports Main "HOL-Library.Word"
begin

section \<open>Viable sets: intervals of admissible values (viable.cpp)\<close>

text \<open>
  The code of \<^verbatim>\<open>viable.cpp\<close> is read with \<^verbatim>\<open>NEW_VIABLE\<close> switched on: only then do
  the member functions of \<^verbatim>\<open>viable_set\<close> exist, and the interval representation with its
  probe budget is the one described for the viable domain tracker.
  Numbers of type \<^verbatim>\<open>rational\<close> only ever hold integers here and are modelled by \<^typ>\<open>int\<close>.
  Diagnostic output (\<^verbatim>\<open>std::cout\<close>, \<^verbatim>\<open>IF_VERBOSE\<close>) is not part of the model: a branch
  that only prints leaves the state as it is.
\<close>

record viable_set =
  emp :: bool
  lo :: int
  hi :: int
  m_num_bits :: nat

text \<open>
  Modelled from the spec: the base class \<^verbatim>\<open>mod_interval\<close>, declared in
  \<^verbatim>\<open>mod_interval.h\<close>. An interval over \<open>[0, 2^width)\<close> is either empty (a flag), free
  (\<open>lo = hi\<close>, no exclusion), the half-open range \<open>[lo, hi)\<close> when \<open>lo < hi\<close>, or a range
  that wraps through the top of the value space, \<open>hi = 0\<close> meaning "up to the top".
\<close>

definition is_empty :: "viable_set \<Rightarrow> bool" where
  "is_empty vs = emp vs"

definition is_free :: "viable_set \<Rightarrow> bool" where
  "is_free vs = (\<not> emp vs \<and> lo vs = hi vs)"

definition set_empty :: "viable_set \<Rightarrow> viable_set" where
  "set_empty vs = vs\<lparr>emp := True\<rparr>"

definition contains :: "viable_set \<Rightarrow> int \<Rightarrow> bool" where
  "contains vs n =
     (if is_empty vs then False
      else if is_free vs then True
      else if lo vs < hi vs then lo vs \<le> n \<and> n < hi vs
      else lo vs \<le> n \<or> n < hi vs)"

definition free_set :: "nat \<Rightarrow> viable_set" where
  "free_set w = \<lparr>emp = False, lo = 0, hi = 0, m_num_bits = w\<rparr>"

text \<open>From here on the definitions follow \<^verbatim>\<open>viable.cpp\<close>.\<close>

definition p2 :: "viable_set \<Rightarrow> int" where
  "p2 vs = 2 ^ m_num_bits vs"

definition is_max :: "viable_set \<Rightarrow> int \<Rightarrow> bool" where
  "is_max vs a = (a + 1 = 2 ^ m_num_bits vs)"

definition is_singleton :: "viable_set \<Rightarrow> bool" where
  "is_singleton vs =
     (\<not> is_empty vs \<and> (lo vs + 1 = hi vs \<or> (hi vs = 0 \<and> is_max vs (lo vs))))"

datatype find_t = empty | singleton | multiple

text \<open>\<^verbatim>\<open>find_hint\<close> leaves \<^verbatim>\<open>val\<close> untouched on an empty set: the model returns no value then.\<close>

definition find_hint :: "viable_set \<Rightarrow> int \<Rightarrow> find_t \<times> int option" where
  "find_hint vs d =
     (if is_empty vs then (empty, None)
      else let val = (if contains vs d then d else lo vs) in
        if lo vs + 1 = hi vs \<or> hi vs = 0 \<and> is_max vs (lo vs) then (singleton, Some val)
        else (multiple, Some val))"

text \<open>\<^verbatim>\<open>viable_set::intersect_eq(a, is_positive)\<close>: keep only \<open>a\<close>, or remove \<open>a\<close>.\<close>

definition intersect_eq_pt :: "int \<Rightarrow> bool \<Rightarrow> viable_set \<Rightarrow> viable_set" where
  "intersect_eq_pt a is_positive vs =
     (if is_empty vs then vs
      else if is_positive then
        (if \<not> contains vs a then set_empty vs
         else if is_max vs a then vs\<lparr>lo := a, hi := 0\<rparr>
         else vs\<lparr>lo := a, hi := a + 1\<rparr>)
      else
        (if \<not> contains vs a then vs
         else if a = lo vs \<and> a + 1 = hi vs then set_empty vs
         else if a = lo vs \<and> hi vs = 0 \<and> is_max vs a then set_empty vs
         else if a = lo vs \<and> \<not> is_max vs a then vs\<lparr>lo := a + 1\<rparr>
         else if a + 1 = hi vs then vs\<lparr>hi := a\<rparr>
         else if hi vs = 0 \<and> is_max vs a then vs\<lparr>hi := a\<rparr>
         else vs))"

definition set_ne :: "int \<Rightarrow> viable_set \<Rightarrow> viable_set" where
  "set_ne a vs = intersect_eq_pt a False vs"

text \<open>
  Modelled from the spec: \<^verbatim>\<open>rational::mult_inverse\<close>, the inverse of an odd number modulo
  \<open>2^width\<close> (arbitrary-precision arithmetic is a primitive the code consumes). It fails
  on an even number and otherwise yields the inverse in \<open>[0, 2^width)\<close>.
\<close>

definition mult_inverse :: "int \<Rightarrow> nat \<Rightarrow> int option" where
  "mult_inverse a num_bits =
     (if even a then None
      else List.find (\<lambda>x. (a * x) mod 2 ^ num_bits = 1 mod 2 ^ num_bits) [0 .. 2 ^ num_bits - 1])"

datatype error =
    Index_out_of_range
  | Verify_failed
  | Assertion_violation
  | Not_implemented_yet
  | Conflict_not_implemented

text \<open>
  \<^verbatim>\<open>viable_set::intersect_eq(a, b, is_positive)\<close>: the closed form for odd \<open>a\<close>.
  The result is the returned flag and the set; \<^verbatim>\<open>VERIFY\<close> aborts when no inverse is found.
\<close>

definition intersect_eq_fast ::
  "int \<Rightarrow> int \<Rightarrow> bool \<Rightarrow> viable_set \<Rightarrow> error + (bool \<times> viable_set)" where
  "intersect_eq_fast a b is_positive vs =
     (if odd a then
        (if b = 0 then Inr (True, intersect_eq_pt b is_positive vs)
         else case mult_inverse a (m_num_bits vs) of
                None \<Rightarrow> Inl Verify_failed
              | Some a_inv \<Rightarrow> Inr (True, intersect_eq_pt ((a_inv * - b) mod p2 vs) is_positive vs))
      else Inr (False, vs))"

definition set_hi :: "int \<Rightarrow> viable_set \<Rightarrow> viable_set" where
  "set_hi d vs =
     (if is_max vs d then vs
      else if is_free vs then vs\<lparr>lo := 0, hi := d + 1\<rparr>
      else if lo vs > d then set_empty vs
      else if hi vs \<noteq> 0 \<or> d + 1 < hi vs then vs\<lparr>hi := d + 1\<rparr>
      else if d + 1 = hi vs then vs
      else vs)"

definition set_lo :: "int \<Rightarrow> viable_set \<Rightarrow> viable_set" where
  "set_lo b vs =
     (if hi vs \<noteq> 0 \<and> hi vs \<le> b then set_empty vs
      else if is_free vs then vs\<lparr>lo := b, hi := 0\<rparr>
      else if lo vs < b then vs\<lparr>lo := b\<rparr>
      else if lo vs = b then vs
      else vs)"

text \<open>\<^verbatim>\<open>viable_set::intersect_ule(a, b, c, d, is_positive)\<close>: the three closed forms.\<close>

definition intersect_ule_fast ::
  "int \<Rightarrow> int \<Rightarrow> int \<Rightarrow> int \<Rightarrow> bool \<Rightarrow> viable_set \<Rightarrow> bool \<times> viable_set" where
  "intersect_ule_fast a b c d is_positive vs =
     (if odd a \<and> b = 0 \<and> c = 0 \<and> d = 0 then (True, intersect_eq_pt b is_positive vs)
      else if a = 1 \<and> b = 0 \<and> c = 0 then
        (if is_positive then (True, set_hi d vs)
         else if is_max vs d then (True, set_empty vs)
         else (True, set_lo (d + 1) vs))
      else if a = 0 \<and> c = 1 \<and> d = 0 then
        (if is_positive then (True, set_lo b vs)
         else if b = 0 then (True, set_empty vs)
         else (True, set_hi (b - 1) vs))
      else (False, vs))"

text \<open>
  \<^verbatim>\<open>viable_set::narrow\<close>: two loops that probe the ends of the interval, each probe paid
  from the budget. The loops write the moved bound into the member first and then call
  \<^verbatim>\<open>set_lo(lo)\<close>, respectively \<^verbatim>\<open>set_hi(hi)\<close>, with a reference to that member; neither
  callee writes the member before its last read of the argument, so passing the value is
  the same. The result is the budget left and the set.
\<close>

fun narrow_lo :: "(int \<Rightarrow> bool) \<Rightarrow> nat \<Rightarrow> viable_set \<Rightarrow> nat \<times> viable_set" where
  "narrow_lo ev 0 vs = (0, vs)"
| "narrow_lo ev (Suc k) vs =
     (if \<not> ev (lo vs) \<and> \<not> is_max vs (lo vs) \<and> \<not> is_empty vs
      then narrow_lo ev k (set_lo (lo vs + 1) (vs\<lparr>lo := lo vs + 1\<rparr>))
      else (Suc k, vs))"

fun narrow_hi :: "(int \<Rightarrow> bool) \<Rightarrow> nat \<Rightarrow> viable_set \<Rightarrow> nat \<times> viable_set" where
  "narrow_hi ev 0 vs = (0, vs)"
| "narrow_hi ev (Suc k) vs =
     (if hi vs > 0 \<and> \<not> ev (hi vs - 1) \<and> \<not> is_empty vs
      then narrow_hi ev k (set_hi (hi vs - 1) (vs\<lparr>hi := hi vs - 1\<rparr>))
      else (Suc k, vs))"

definition narrow :: "(int \<Rightarrow> bool) \<Rightarrow> nat \<Rightarrow> viable_set \<Rightarrow> nat \<times> viable_set" where
  "narrow ev budget vs = (case narrow_lo ev budget vs of (k, vs') \<Rightarrow> narrow_hi ev k vs')"

definition eq_holds :: "nat \<Rightarrow> int \<Rightarrow> int \<Rightarrow> bool \<Rightarrow> int \<Rightarrow> bool" where
  "eq_holds w a b is_positive x = (is_positive = ((a * x + b) mod 2 ^ w = 0))"

definition ule_holds :: "nat \<Rightarrow> int \<Rightarrow> int \<Rightarrow> int \<Rightarrow> int \<Rightarrow> bool \<Rightarrow> int \<Rightarrow> bool" where
  "ule_holds w a b c d is_positive x =
     (is_positive = ((a * x + b) mod 2 ^ w \<le> (c * x + d) mod 2 ^ w))"

definition intersect_eq_budget ::
  "int \<Rightarrow> int \<Rightarrow> bool \<Rightarrow> nat \<Rightarrow> viable_set \<Rightarrow> nat \<times> viable_set" where
  "intersect_eq_budget a b is_positive budget vs =
     narrow (eq_holds (m_num_bits vs) a b is_positive) budget vs"

definition intersect_ule_budget ::
  "int \<Rightarrow> int \<Rightarrow> int \<Rightarrow> int \<Rightarrow> bool \<Rightarrow> nat \<Rightarrow> viable_set \<Rightarrow> nat \<times> viable_set" where
  "intersect_ule_budget a b c d is_positive budget vs =
     narrow (ule_holds (m_num_bits vs) a b c d is_positive) budget vs"


subsection \<open>The tracker: one viable set per problem variable, with its own trail\<close>

text \<open>
  Modelled from the spec: the decision-diagram library (\<^verbatim>\<open>dd::bdd\<close>, \<^verbatim>\<open>dd::fdd\<close>,
  \<^verbatim>\<open>bddv\<close>) is consumed as an opaque, exact representation of a predicate on the values
  of a bit-vector. A diagram is modelled by the predicate it denotes; the diagram of
  \<open>a*x + b \<le> c*x + d\<close> over \<open>sz\<close> bits is that comparison modulo \<open>2^sz\<close>. \<^verbatim>\<open>fdd::sup\<close>
  fails when the predicate is false at the given bound and otherwise replaces the bound
  by the last value of the run of values, starting at the bound, on which the predicate
  holds. \<^verbatim>\<open>fdd::inf\<close> is only consulted to print a message and is left out.
\<close>

fun sup_run :: "(int \<Rightarrow> bool) \<Rightarrow> int \<Rightarrow> nat \<Rightarrow> int" where
  "sup_run g x 0 = x"
| "sup_run g x (Suc k) = (if g (x + 1) then sup_run g (x + 1) k else x)"

definition fdd_sup :: "nat \<Rightarrow> (int \<Rightarrow> bool) \<Rightarrow> int \<Rightarrow> int option" where
  "fdd_sup sz g bound =
     (if g bound then Some (sup_run g bound (nat (2 ^ sz - 1 - bound))) else None)"

record ineq_entry =
  m_bit_width :: nat
  m_a :: int
  m_b :: int
  m_c :: int
  m_d :: int
  repr :: "int \<Rightarrow> bool"
  m_activity :: nat

text \<open>
  Modelled from the spec: the inequality cache is keyed by the bit width and the four
  coefficients (the hash and equality of \<^verbatim>\<open>ineq_entry\<close> are declared in the header).
\<close>

definition same_key :: "nat \<Rightarrow> int \<Rightarrow> int \<Rightarrow> int \<Rightarrow> int \<Rightarrow> ineq_entry \<Rightarrow> bool" where
  "same_key sz a b c d e =
     (m_bit_width e = sz \<and> m_a e = a \<and> m_b e = b \<and> m_c e = c \<and> m_d e = d)"

fun bump_activity ::
  "nat \<Rightarrow> int \<Rightarrow> int \<Rightarrow> int \<Rightarrow> int \<Rightarrow> ineq_entry list \<Rightarrow> ineq_entry list" where
  "bump_activity sz a b c d [] = []"
| "bump_activity sz a b c d (e # es) =
     (if same_key sz a b c d e then e\<lparr>m_activity := m_activity e + 1\<rparr> # es
      else e # bump_activity sz a b c d es)"

datatype trail_instr_t = viable_i

record viable =
  m_viable :: "viable_set list"
  m_viable_trail :: "(nat \<times> viable_set) list"
  m_ineq_cache :: "ineq_entry list"
  s_m_trail :: "trail_instr_t list"
  s_conflict :: "nat list"
  s_size :: "nat \<Rightarrow> nat"

text \<open>
  Vectors that are only pushed to and popped from are lists whose head is the back of
  the vector. \<^verbatim>\<open>s.set_conflict(v)\<close> belongs to the surrounding solver: the model records
  the calls, most recent first. An index outside a vector is an error of the model.
\<close>

definition set_conflict :: "nat \<Rightarrow> viable \<Rightarrow> viable" where
  "set_conflict v st = st\<lparr>s_conflict := v # s_conflict st\<rparr>"

definition push_viable :: "nat \<Rightarrow> viable \<Rightarrow> error + viable" where
  "push_viable v st =
     (if v < length (m_viable st)
      then Inr (st\<lparr>s_m_trail := viable_i # s_m_trail st,
                   m_viable_trail := (v, m_viable st ! v) # m_viable_trail st\<rparr>)
      else Inl Index_out_of_range)"

definition pop_viable :: "viable \<Rightarrow> error + viable" where
  "pop_viable st =
     (case m_viable_trail st of
        [] \<Rightarrow> Inl Index_out_of_range
      | (v, d) # tr \<Rightarrow>
          if v < length (m_viable st)
          then Inr (st\<lparr>m_viable := (m_viable st)[v := d], m_viable_trail := tr\<rparr>)
          else Inl Index_out_of_range)"

definition conflict_if_empty :: "nat \<Rightarrow> viable \<Rightarrow> viable" where
  "conflict_if_empty v st = (if is_empty (m_viable st ! v) then set_conflict v st else st)"

text \<open>\<^verbatim>\<open>viable::intersect_eq(a, v, b, is_positive)\<close>: \<open>a*v + b = 0\<close> or \<open>a*v + b \<noteq> 0\<close>.\<close>

definition viable_intersect_eq :: "int \<Rightarrow> nat \<Rightarrow> int \<Rightarrow> bool \<Rightarrow> viable \<Rightarrow> error + viable" where
  "viable_intersect_eq a v b is_positive st =
     (case push_viable v st of
        Inl e \<Rightarrow> Inl e
      | Inr st1 \<Rightarrow>
         (case intersect_eq_fast a b is_positive (m_viable st1 ! v) of
            Inl e \<Rightarrow> Inl e
          | Inr (ok, vs1) \<Rightarrow>
              let vs2 = (if ok then vs1 else snd (intersect_eq_budget a b is_positive 10 vs1))
              in Inr (conflict_if_empty v (st1\<lparr>m_viable := (m_viable st1)[v := vs2]\<rparr>))))"

text \<open>
  \<^verbatim>\<open>viable::intersect_ule(v, a, b, c, d, is_positive)\<close>. When the budget is used up, the
  diagram of the inequality is looked up in the cache (and entered on a miss), its
  activity is counted, and the lower bound is moved past the run of violating values.
\<close>

definition cache_lookup ::
  "nat \<Rightarrow> int \<Rightarrow> int \<Rightarrow> int \<Rightarrow> int \<Rightarrow> ineq_entry list \<Rightarrow> ineq_entry list" where
  "cache_lookup sz a b c d cache =
     (case List.find (same_key sz a b c d) cache of
        Some e \<Rightarrow> cache
      | None \<Rightarrow> cache @ [\<lparr>m_bit_width = sz, m_a = a, m_b = b, m_c = c, m_d = d,
                           repr = ule_holds sz a b c d True, m_activity = 0\<rparr>])"

definition ule_fallback ::
  "nat \<Rightarrow> int \<Rightarrow> int \<Rightarrow> int \<Rightarrow> int \<Rightarrow> bool \<Rightarrow> ineq_entry list \<Rightarrow> viable_set \<Rightarrow> viable_set" where
  "ule_fallback sz a b c d is_positive cache vs =
     (case List.find (same_key sz a b c d) cache of
        None \<Rightarrow> vs
      | Some other \<Rightarrow>
          (case fdd_sup sz (\<lambda>x. if is_positive then \<not> repr other x else repr other x) (lo vs) of
             Some bound \<Rightarrow> set_ne bound (set_lo bound vs)
           | None \<Rightarrow> vs))"

definition viable_intersect_ule ::
  "nat \<Rightarrow> int \<Rightarrow> int \<Rightarrow> int \<Rightarrow> int \<Rightarrow> bool \<Rightarrow> viable \<Rightarrow> error + viable" where
  "viable_intersect_ule v a b c d is_positive st =
     (case push_viable v st of
        Inl e \<Rightarrow> Inl e
      | Inr st1 \<Rightarrow>
         (case intersect_ule_fast a b c d is_positive (m_viable st1 ! v) of
            (True, vs1) \<Rightarrow> Inr (conflict_if_empty v (st1\<lparr>m_viable := (m_viable st1)[v := vs1]\<rparr>))
          | (False, vs1) \<Rightarrow>
             (case intersect_ule_budget a b c d is_positive 10 vs1 of
                (Suc k, vs2) \<Rightarrow>
                  Inr (conflict_if_empty v (st1\<lparr>m_viable := (m_viable st1)[v := vs2]\<rparr>))
              | (0, vs2) \<Rightarrow>
                  let sz = s_size st1 v;
                      cache = cache_lookup sz a b c d (m_ineq_cache st1);
                      vs3 = ule_fallback sz a b c d is_positive cache vs2
                  in Inr (conflict_if_empty v
                       (st1\<lparr>m_viable := (m_viable st1)[v := vs3],
                            m_ineq_cache := bump_activity sz a b c d cache\<rparr>)))))"

definition has_viable :: "nat \<Rightarrow> viable \<Rightarrow> error + bool" where
  "has_viable v st =
     (if v < length (m_viable st) then Inr (\<not> is_empty (m_viable st ! v))
      else Inl Index_out_of_range)"

definition is_viable :: "nat \<Rightarrow> int \<Rightarrow> viable \<Rightarrow> error + bool" where
  "is_viable v val st =
     (if v < length (m_viable st) then Inr (contains (m_viable st ! v) val)
      else Inl Index_out_of_range)"

definition add_non_viable :: "nat \<Rightarrow> int \<Rightarrow> viable \<Rightarrow> error + viable" where
  "add_non_viable v val st =
     (case push_viable v st of
        Inl e \<Rightarrow> Inl e
      | Inr st1 \<Rightarrow>
          Inr (conflict_if_empty v
                 (st1\<lparr>m_viable := (m_viable st1)[v := set_ne val (m_viable st1 ! v)]\<rparr>)))"

text \<open>Sequences of tracker mutations, and undoing the last \<open>n\<close> trail entries.\<close>

datatype viable_op =
    Intersect_eq int nat int bool
  | Intersect_ule nat int int int int bool
  | Add_non_viable nat int

fun apply_viable_op :: "viable_op \<Rightarrow> viable \<Rightarrow> error + viable" where
  "apply_viable_op (Intersect_eq a v b p) st = viable_intersect_eq a v b p st"
| "apply_viable_op (Intersect_ule v a b c d p) st = viable_intersect_ule v a b c d p st"
| "apply_viable_op (Add_non_viable v val) st = add_non_viable v val st"

fun run_viable_ops :: "viable_op list \<Rightarrow> viable \<Rightarrow> error + viable" where
  "run_viable_ops [] st = Inr st"
| "run_viable_ops (x # xs) st =
     (case apply_viable_op x st of Inl e \<Rightarrow> Inl e | Inr st' \<Rightarrow> run_viable_ops xs st')"

fun pop_viable_n :: "nat \<Rightarrow> viable \<Rightarrow> error + viable" where
  "pop_viable_n 0 st = Inr st"
| "pop_viable_n (Suc n) st =
     (case pop_viable st of Inl e \<Rightarrow> Inl e | Inr st' \<Rightarrow> pop_viable_n n st')"

text \<open>
  The values a set admits, and the shape every set built by the functions above has:
  bounds inside \<open>[0, 2^width)\<close>, and either \<open>lo < hi\<close> or a range up to the top (\<open>hi = 0\<close>).
\<close>

definition admissible :: "viable_set \<Rightarrow> int \<Rightarrow> bool" where
  "admissible vs x = (0 \<le> x \<and> x < p2 vs \<and> contains vs x)"

definition well_formed :: "viable_set \<Rightarrow> bool" where
  "well_formed vs =
     (emp vs \<or> (0 \<le> lo vs \<and> lo vs < p2 vs \<and> 0 \<le> hi vs \<and> hi vs < p2 vs
                \<and> (hi vs = 0 \<or> lo vs < hi vs)))"

definition in_range :: "viable_set \<Rightarrow> int \<Rightarrow> bool" where
  "in_range vs x = (0 \<le> x \<and> x < p2 vs)"

text \<open>The end of the interval: \<open>hi\<close>, or the top of the value space when \<open>hi = 0\<close>.\<close>

definition upper_end :: "viable_set \<Rightarrow> int" where
  "upper_end vs = (if hi vs = 0 then p2 vs else hi vs)"

text \<open>Every cached diagram denotes the inequality of its key.\<close>

definition cache_ok :: "ineq_entry list \<Rightarrow> bool" where
  "cache_ok cache =
     list_all (\<lambda>e. repr e = ule_holds (m_bit_width e) (m_a e) (m_b e) (m_c e) (m_d e) True) cache"

definition init_viable :: "nat list \<Rightarrow> viable" where
  "init_viable widths =
     \<lparr>m_viable = map free_set widths, m_viable_trail = [], m_ineq_cache = [],
      s_m_trail = [], s_conflict = [], s_size = (\<lambda>v. if v < length widths then widths ! v else 0)\<rparr>"

section \<open>The linear solver: routing to one feasibility engine per bit width (linear_solver.cpp)\<close>

type_synonym var_t = "32 word"

datatype lbool = l_false | l_undef | l_true

datatype trail_i = inc_level_i | add_var_i | add_mono_i | set_bound_i | add_row_i | add_ineq_i

text \<open>
  \<^verbatim>\<open>mono_info\<close>: a bit width, the sequence of problem variables (the owned copy, with its
  length) and the internal variable. The fields carry a prefix, their names being needed
  for variables.
\<close>

record mono_info =
  mi_sz :: nat
  mi_vars :: "nat list"
  mi_var :: var_t

text \<open>
  Modelled from the spec: the feasibility engine \<^verbatim>\<open>fixplex\<close>, consumed through
  \<^verbatim>\<open>add_row\<close>, \<^verbatim>\<open>del_row\<close>, \<^verbatim>\<open>set_bounds\<close>, \<^verbatim>\<open>set_value\<close>, \<^verbatim>\<open>add_le\<close>, \<^verbatim>\<open>add_lt\<close> and
  the undo counterparts \<^verbatim>\<open>restore_bound\<close> and \<^verbatim>\<open>restore_ineq\<close>, which are called in
  last-in-first-out order and each undo the engine's own preceding mutation. The engine
  is modelled by the rows, bounds and inequality edges it has been given and that have
  not been undone, most recent first. The tableau algorithm behind \<^verbatim>\<open>make_feasible\<close> is
  not modelled: it is a parameter of \<open>check\<close> below.
\<close>

datatype bound = Bounds var_t int int | Value var_t int

datatype ineq = Le var_t var_t | Lt var_t var_t

record fixplex =
  fp_bits :: nat
  fp_rows :: "(var_t \<times> var_t list \<times> int list) list"
  fp_bounds :: "bound list"
  fp_ineqs :: "ineq list"

definition mk_fixplex :: "nat \<Rightarrow> fixplex" where
  "mk_fixplex bits = \<lparr>fp_bits = bits, fp_rows = [], fp_bounds = [], fp_ineqs = []\<rparr>"

definition add_row :: "var_t \<Rightarrow> var_t list \<Rightarrow> int list \<Rightarrow> fixplex \<Rightarrow> error + fixplex" where
  "add_row v vs cs fp = Inr (fp\<lparr>fp_rows := (v, vs, cs) # fp_rows fp\<rparr>)"

fun del_first :: "var_t \<Rightarrow> (var_t \<times> var_t list \<times> int list) list
    \<Rightarrow> (var_t \<times> var_t list \<times> int list) list option" where
  "del_first v [] = None"
| "del_first v (r # rs) =
     (if fst r = v then Some rs else map_option (\<lambda>rs'. r # rs') (del_first v rs))"

definition del_row :: "var_t \<Rightarrow> fixplex \<Rightarrow> error + fixplex" where
  "del_row v fp =
     (case del_first v (fp_rows fp) of
        None \<Rightarrow> Inl Index_out_of_range
      | Some rs \<Rightarrow> Inr (fp\<lparr>fp_rows := rs\<rparr>))"

definition fp_set_bounds :: "var_t \<Rightarrow> int \<Rightarrow> int \<Rightarrow> fixplex \<Rightarrow> error + fixplex" where
  "fp_set_bounds v l h fp = Inr (fp\<lparr>fp_bounds := Bounds v l h # fp_bounds fp\<rparr>)"

definition fp_set_value :: "var_t \<Rightarrow> int \<Rightarrow> fixplex \<Rightarrow> error + fixplex" where
  "fp_set_value v x fp = Inr (fp\<lparr>fp_bounds := Value v x # fp_bounds fp\<rparr>)"

definition restore_bound :: "fixplex \<Rightarrow> error + fixplex" where
  "restore_bound fp =
     (case fp_bounds fp of
        [] \<Rightarrow> Inl Index_out_of_range
      | b # bs \<Rightarrow> Inr (fp\<lparr>fp_bounds := bs\<rparr>))"

definition add_le :: "var_t \<Rightarrow> var_t \<Rightarrow> fixplex \<Rightarrow> error + fixplex" where
  "add_le v w fp = Inr (fp\<lparr>fp_ineqs := Le v w # fp_ineqs fp\<rparr>)"

definition add_lt :: "var_t \<Rightarrow> var_t \<Rightarrow> fixplex \<Rightarrow> error + fixplex" where
  "add_lt v w fp = Inr (fp\<lparr>fp_ineqs := Lt v w # fp_ineqs fp\<rparr>)"

definition restore_ineq :: "fixplex \<Rightarrow> error + fixplex" where
  "restore_ineq fp =
     (case fp_ineqs fp of
        [] \<Rightarrow> Inl Index_out_of_range
      | e # es \<Rightarrow> Inr (fp\<lparr>fp_ineqs := es\<rparr>))"

text \<open>
  Modelled from the spec: a polynomial operand (\<^verbatim>\<open>pdd\<close>) is an opaque ordered sequence of
  (coefficient, monomial of problem variables) pairs with a fixed bit width. It is a
  value when no monomial mentions a variable, and its value is then the sum of the
  coefficients modulo \<open>2^width\<close>.
\<close>

record pdd =
  power_of_2 :: nat
  monomials :: "(int \<times> nat list) list"

definition is_val :: "pdd \<Rightarrow> bool" where
  "is_val p = list_all (\<lambda>m. snd m = []) (monomials p)"

definition val :: "pdd \<Rightarrow> int" where
  "val p = sum_list (map fst (monomials p)) mod 2 ^ power_of_2 p"

text \<open>
  Constraints: an equality \<open>p = 0\<close> or an ordering \<open>lhs \<le> rhs\<close>, with the boolean variable
  that names it and its sign (\<^verbatim>\<open>is_positive\<close>, \<^verbatim>\<open>is_undef\<close>); any other kind reaches the
  \<^verbatim>\<open>default\<close> branch of the dispatching switches.
\<close>

datatype constraint =
    eq_constraint nat lbool pdd
  | ule_constraint nat lbool pdd pdd
  | other_constraint nat lbool

record linear_solver =
  m_trail :: "trail_i list"
  m_rows :: "(var_t \<times> nat) list"
  m_sz2num_vars :: "var_t list"
  m_mono2var :: "nat \<times> nat list \<Rightarrow> mono_info option"
  m_monomials :: "mono_info list"
  m_fix :: "fixplex option list"
  m_bool_var2row :: "(var_t \<times> var_t) list"
  m_vars :: "var_t list"
  m_coeffs :: "int list"
  ls_size :: "nat \<Rightarrow> nat"

text \<open>
  \<^verbatim>\<open>m_trail\<close>, \<^verbatim>\<open>m_rows\<close> and \<^verbatim>\<open>m_monomials\<close> are stacks: lists whose head is the back of
  the vector. \<^verbatim>\<open>m_sz2num_vars\<close>, \<^verbatim>\<open>m_fix\<close> and \<^verbatim>\<open>m_bool_var2row\<close> are indexed vectors that
  grow on demand, \<^verbatim>\<open>m_vars\<close> and \<^verbatim>\<open>m_coeffs\<close> are scratch vectors in push order.
  Modelled from the spec: the interning table \<^verbatim>\<open>m_mono2var\<close> is keyed by the width and
  the exact sequence (hash and equality of \<^verbatim>\<open>mono_info\<close> are declared in the header).
  \<open>ls_size\<close> is the width the surrounding solver gives for a problem variable.
\<close>

definition reserve :: "'a list \<Rightarrow> nat \<Rightarrow> 'a \<Rightarrow> 'a list" where
  "reserve xs n dflt = xs @ replicate (n - length xs) dflt"

definition fix_get :: "fixplex option list \<Rightarrow> nat \<Rightarrow> fixplex option" where
  "fix_get fx i = (if i < length fx then fx ! i else None)"

definition fix_set :: "fixplex option list \<Rightarrow> nat \<Rightarrow> fixplex option \<Rightarrow> fixplex option list" where
  "fix_set fx i b = (reserve fx (i + 1) None)[i := b]"

definition setx :: "'a list \<Rightarrow> nat \<Rightarrow> 'a \<Rightarrow> 'a \<Rightarrow> 'a list" where
  "setx xs i elem dflt = (reserve xs (i + 1) dflt)[i := elem]"

definition push :: "linear_solver \<Rightarrow> linear_solver" where
  "push s = s\<lparr>m_trail := inc_level_i # m_trail s\<rparr>"

text \<open>
  \<^verbatim>\<open>sz2fixplex\<close>: the engine for a width, built on first use. \<^verbatim>\<open>NOT_IMPLEMENTED_YET\<close>
  ends the run. The model returns the solver with the engine in place; the engine itself
  is then read and written at index \<open>sz\<close> of \<^verbatim>\<open>m_fix\<close>.
\<close>

definition sz2fixplex :: "nat \<Rightarrow> linear_solver \<Rightarrow> error + linear_solver" where
  "sz2fixplex sz s =
     (case fix_get (m_fix s) sz of
        Some b \<Rightarrow> Inr s
      | None \<Rightarrow>
          if sz = 32 then Inr (s\<lparr>m_fix := fix_set (m_fix s) sz (Some (mk_fixplex 32))\<rparr>)
          else if sz = 64 then Inr (s\<lparr>m_fix := fix_set (m_fix s) sz (Some (mk_fixplex 64))\<rparr>)
          else if sz = 128 then Inl Not_implemented_yet
          else if sz = 256 then Inr (s\<lparr>m_fix := fix_set (m_fix s) sz (Some (mk_fixplex 256))\<rparr>)
          else Inl Not_implemented_yet)"

text \<open>A call \<^verbatim>\<open>sz2fixplex(sz).f(...)\<close>: fetch the engine, run \<open>f\<close> on it, keep the result.\<close>

definition on_fixplex ::
  "nat \<Rightarrow> (fixplex \<Rightarrow> error + fixplex) \<Rightarrow> linear_solver \<Rightarrow> error + linear_solver" where
  "on_fixplex sz f s =
     (case sz2fixplex sz s of
        Inl e \<Rightarrow> Inl e
      | Inr s1 \<Rightarrow>
         (case fix_get (m_fix s1) sz of
            None \<Rightarrow> Inl Index_out_of_range
          | Some fp \<Rightarrow>
             (case f fp of
                Inl e \<Rightarrow> Inl e
              | Inr fp' \<Rightarrow> Inr (s1\<lparr>m_fix := (m_fix s1)[sz := Some fp']\<rparr>))))"

text \<open>\<^verbatim>\<open>pop\<close>: the body of the switch for one trail entry, then the loop.\<close>

definition undo_entry :: "trail_i \<Rightarrow> linear_solver \<Rightarrow> error + linear_solver" where
  "undo_entry e s =
     (case e of
        inc_level_i \<Rightarrow> Inr s
      | add_var_i \<Rightarrow>
         (case m_rows s of
            [] \<Rightarrow> Inl Index_out_of_range
          | (v, sz) # rs \<Rightarrow>
              if sz < length (m_sz2num_vars s)
              then Inr (s\<lparr>m_sz2num_vars := (m_sz2num_vars s)[sz := m_sz2num_vars s ! sz - 1],
                          m_rows := rs\<rparr>)
              else Inl Index_out_of_range)
      | add_mono_i \<Rightarrow>
         (case m_monomials s of
            [] \<Rightarrow> Inl Index_out_of_range
          | m # ms \<Rightarrow>
              Inr (s\<lparr>m_mono2var := (m_mono2var s)((mi_sz m, mi_vars m) := None),
                     m_monomials := ms\<rparr>))
      | set_bound_i \<Rightarrow>
         (case m_rows s of
            [] \<Rightarrow> Inl Index_out_of_range
          | (v, sz) # rs \<Rightarrow>
             (case on_fixplex sz restore_bound s of
                Inl e \<Rightarrow> Inl e
              | Inr s1 \<Rightarrow> Inr (s1\<lparr>m_rows := rs\<rparr>)))
      | add_row_i \<Rightarrow>
         (case m_rows s of
            [] \<Rightarrow> Inl Index_out_of_range
          | (v, sz) # rs \<Rightarrow>
             (case on_fixplex sz (del_row v) s of
                Inl e \<Rightarrow> Inl e
              | Inr s1 \<Rightarrow> Inr (s1\<lparr>m_rows := rs\<rparr>)))
      | add_ineq_i \<Rightarrow>
         (case m_rows s of
            [] \<Rightarrow> Inl Index_out_of_range
          | (v, sz) # rs \<Rightarrow>
             (case on_fixplex sz restore_ineq s of
                Inl e \<Rightarrow> Inl e
              | Inr s1 \<Rightarrow> Inr (s1\<lparr>m_rows := rs\<rparr>))))"

fun pop_loop :: "nat \<Rightarrow> trail_i list \<Rightarrow> linear_solver \<Rightarrow> error + linear_solver" where
  "pop_loop 0 tr s = Inr s"
| "pop_loop (Suc n) [] s = Inl Index_out_of_range"
| "pop_loop (Suc n) (e # tr) s =
     (case undo_entry e s of
        Inl x \<Rightarrow> Inl x
      | Inr s' \<Rightarrow> pop_loop (if e = inc_level_i then n else Suc n) tr (s'\<lparr>m_trail := tr\<rparr>))"

definition pop :: "nat \<Rightarrow> linear_solver \<Rightarrow> error + linear_solver" where
  "pop n s = pop_loop n (m_trail s) s"

definition fresh_var :: "nat \<Rightarrow> linear_solver \<Rightarrow> var_t \<times> linear_solver" where
  "fresh_var sz s =
     (let xs = reserve (m_sz2num_vars s) (sz + 1) 0
      in (xs ! sz,
          s\<lparr>m_sz2num_vars := xs[sz := xs ! sz + 1],
            m_trail := add_var_i # m_trail s,
            m_rows := (0, sz) # m_rows s\<rparr>))"

definition mono2var :: "nat \<Rightarrow> nat list \<Rightarrow> linear_solver \<Rightarrow> var_t \<times> linear_solver" where
  "mono2var sz vs s =
     (case m_mono2var s (sz, vs) of
        Some m1 \<Rightarrow> (mi_var m1, s)
      | None \<Rightarrow>
         (case fresh_var sz s of
            (v, s1) \<Rightarrow>
              (v, s1\<lparr>m_mono2var := (m_mono2var s1)((sz, vs) \<mapsto> \<lparr>mi_sz = sz, mi_vars = vs, mi_var = v\<rparr>),
                     m_monomials := \<lparr>mi_sz = sz, mi_vars = vs, mi_var = v\<rparr> # m_monomials s1,
                     m_trail := add_mono_i # m_trail s1\<rparr>)))"

definition pvar2var :: "nat \<Rightarrow> nat \<Rightarrow> linear_solver \<Rightarrow> var_t \<times> linear_solver" where
  "pvar2var sz v s = mono2var sz [v] s"

fun linearize_loop :: "nat \<Rightarrow> (int \<times> nat list) list \<Rightarrow> linear_solver \<Rightarrow> linear_solver" where
  "linearize_loop sz [] s = s"
| "linearize_loop sz (m # ms) s =
     (case mono2var sz (snd m) s of
        (v, s1) \<Rightarrow>
          linearize_loop sz ms (s1\<lparr>m_vars := m_vars s1 @ [v], m_coeffs := m_coeffs s1 @ [fst m]\<rparr>))"

definition linearize :: "pdd \<Rightarrow> linear_solver \<Rightarrow> linear_solver" where
  "linearize p s = linearize_loop (power_of_2 p) (monomials p) (s\<lparr>m_vars := [], m_coeffs := []\<rparr>)"

definition internalize_pdd :: "pdd \<Rightarrow> linear_solver \<Rightarrow> error + (var_t \<times> linear_solver)" where
  "internalize_pdd p s =
     (let sz = power_of_2 p; s1 = linearize p s
      in (if length (m_vars s1) = 1 \<and> last (m_coeffs s1) = 1 then Inr (last (m_vars s1), s1)
          else (case fresh_var sz s1 of
            (v, s2) \<Rightarrow>
              (case on_fixplex sz (add_row v (m_vars s2 @ [v]) (m_coeffs s2 @ [2 ^ sz - 1]))
                      (s2\<lparr>m_vars := m_vars s2 @ [v], m_coeffs := m_coeffs s2 @ [2 ^ sz - 1]\<rparr>) of
                 Inl e \<Rightarrow> Inl e
               | Inr s4 \<Rightarrow>
                   Inr (v, s4\<lparr>m_rows := (v, sz) # m_rows s4,
                              m_trail := add_row_i # m_trail s4\<rparr>)))))"

text \<open>
  Registering a constraint: \<^verbatim>\<open>new_eq\<close> and \<^verbatim>\<open>new_le\<close> create the rows and remember the
  internal variables under the constraint's boolean variable.
\<close>

definition new_eq :: "nat \<Rightarrow> pdd \<Rightarrow> linear_solver \<Rightarrow> error + linear_solver" where
  "new_eq bvar p s =
     (case internalize_pdd p s of
        Inl e \<Rightarrow> Inl e
      | Inr (v, s1) \<Rightarrow> Inr (s1\<lparr>m_bool_var2row := setx (m_bool_var2row s1) bvar (v, v) (v, v)\<rparr>))"

definition new_le :: "nat \<Rightarrow> pdd \<Rightarrow> pdd \<Rightarrow> linear_solver \<Rightarrow> error + linear_solver" where
  "new_le bvar lhs rhs s =
     (case internalize_pdd lhs s of
        Inl e \<Rightarrow> Inl e
      | Inr (v, s1) \<Rightarrow>
         (case internalize_pdd rhs s1 of
            Inl e \<Rightarrow> Inl e
          | Inr (w, s2) \<Rightarrow>
              Inr (s2\<lparr>m_bool_var2row := setx (m_bool_var2row s2) bvar (v, w) (v, w)\<rparr>)))"

definition push_bound :: "var_t \<Rightarrow> nat \<Rightarrow> linear_solver \<Rightarrow> linear_solver" where
  "push_bound v sz s = s\<lparr>m_trail := set_bound_i # m_trail s, m_rows := (v, sz) # m_rows s\<rparr>"

text \<open>Activating a constraint: \<^verbatim>\<open>assert_eq\<close> and \<^verbatim>\<open>assert_le\<close>.\<close>

definition assert_eq :: "nat \<Rightarrow> lbool \<Rightarrow> pdd \<Rightarrow> linear_solver \<Rightarrow> error + linear_solver" where
  "assert_eq bvar sign p s =
     (if \<not> bvar < length (m_bool_var2row s) then Inl Index_out_of_range
      else (case sz2fixplex (power_of_2 p) s of
        Inl e \<Rightarrow> Inl e
      | Inr s1 \<Rightarrow>
          (if sign = l_undef then Inl Assertion_violation
           else on_fixplex (power_of_2 p)
                  (if sign = l_true then fp_set_bounds (fst (m_bool_var2row s ! bvar)) 0 0
                   else fp_set_bounds (fst (m_bool_var2row s ! bvar)) 1 0)
                  (push_bound (fst (m_bool_var2row s ! bvar)) (power_of_2 p) s1))))"

definition assert_le ::
  "nat \<Rightarrow> lbool \<Rightarrow> pdd \<Rightarrow> pdd \<Rightarrow> linear_solver \<Rightarrow> error + linear_solver" where
  "assert_le bvar sign lhs rhs s =
     (if \<not> bvar < length (m_bool_var2row s) then Inl Index_out_of_range
      else (case m_bool_var2row s ! bvar of (v, w) \<Rightarrow>
        (case sz2fixplex (power_of_2 lhs) s of
           Inl e \<Rightarrow> Inl e
         | Inr s1 \<Rightarrow>
            (if is_val rhs then
               (let is_max_value = False
                in (case (if sign = l_true then on_fixplex (power_of_2 lhs) (fp_set_bounds v 0 (val rhs)) s1
                          else if is_max_value then Inl Conflict_not_implemented
                          else on_fixplex (power_of_2 lhs) (fp_set_bounds v (val rhs + 1) 0) s1) of
                      Inl e \<Rightarrow> Inl e
                    | Inr s2 \<Rightarrow> Inr (push_bound v (power_of_2 lhs) s2)))
             else if is_val lhs then
               (case (if sign = l_true then on_fixplex (power_of_2 lhs) (fp_set_bounds w (val lhs) 0) s1
                      else if val lhs = 0 then Inl Conflict_not_implemented
                      else on_fixplex (power_of_2 lhs) (fp_set_bounds w 0 (val lhs - 1)) s1) of
                  Inl e \<Rightarrow> Inl e
                | Inr s2 \<Rightarrow> Inr (push_bound w (power_of_2 lhs) s2))
             else
               (case (if sign = l_true then on_fixplex (power_of_2 lhs) (add_le v w) s1
                      else on_fixplex (power_of_2 lhs) (add_lt w v) s1) of
                  Inl e \<Rightarrow> Inl e
                | Inr s2 \<Rightarrow>
                    Inr (s2\<lparr>m_trail := add_ineq_i # m_trail s2,
                            m_rows := (v, power_of_2 lhs) # m_rows s2\<rparr>))))))"

definition new_constraint :: "constraint \<Rightarrow> linear_solver \<Rightarrow> error + linear_solver" where
  "new_constraint c s =
     (case c of
        eq_constraint bvar sign p \<Rightarrow> new_eq bvar p s
      | ule_constraint bvar sign lhs rhs \<Rightarrow> new_le bvar lhs rhs s
      | other_constraint bvar sign \<Rightarrow> Inl Assertion_violation)"

definition activate_constraint :: "constraint \<Rightarrow> linear_solver \<Rightarrow> error + linear_solver" where
  "activate_constraint c s =
     (case c of
        eq_constraint bvar sign p \<Rightarrow>
          (if sign = l_undef then Inl Assertion_violation else assert_eq bvar sign p s)
      | ule_constraint bvar sign lhs rhs \<Rightarrow>
          (if sign = l_undef then Inl Assertion_violation else assert_le bvar sign lhs rhs s)
      | other_constraint bvar sign \<Rightarrow> Inl Assertion_violation)"

definition set_value :: "nat \<Rightarrow> int \<Rightarrow> linear_solver \<Rightarrow> error + linear_solver" where
  "set_value v x s =
     (case sz2fixplex (ls_size s v) s of
        Inl e \<Rightarrow> Inl e
      | Inr s1 \<Rightarrow>
         (case pvar2var (ls_size s v) v s1 of
            (w, s2) \<Rightarrow>
              on_fixplex (ls_size s v) (fp_set_value w x) (push_bound w (ls_size s v) s2)))"

definition set_bound :: "nat \<Rightarrow> int \<Rightarrow> int \<Rightarrow> linear_solver \<Rightarrow> error + linear_solver" where
  "set_bound v l h s =
     (case sz2fixplex (ls_size s v) s of
        Inl e \<Rightarrow> Inl e
      | Inr s1 \<Rightarrow>
         (case pvar2var (ls_size s v) v s1 of
            (w, s2) \<Rightarrow>
              on_fixplex (ls_size s v) (fp_set_bounds w l h) (push_bound w (ls_size s v) s2)))"

text \<open>
  \<^verbatim>\<open>check\<close>: the loop over \<^verbatim>\<open>m_fix\<close>. Besides the verdict and the engines as
  \<^verbatim>\<open>make_feasible\<close> leaves them, the loop function lists the indices (bit widths) of the
  engines it has consulted, in the order of the calls; \<open>i\<close> is the index of the head.
\<close>

fun check_loop :: "(fixplex \<Rightarrow> lbool \<times> fixplex) \<Rightarrow> nat \<Rightarrow> fixplex option list \<Rightarrow> lbool
    \<Rightarrow> lbool \<times> nat list \<times> fixplex option list" where
  "check_loop mf i [] res = (res, [], [])"
| "check_loop mf i (None # fs) res =
     (case check_loop mf (Suc i) fs res of (r, tr, fs') \<Rightarrow> (r, tr, None # fs'))"
| "check_loop mf i (Some f # fs) res =
     (case mf f of
        (r, f') \<Rightarrow>
          if r = l_false then (r, [i], Some f' # fs)
          else (case check_loop mf (Suc i) fs (if r = l_undef then l_undef else res) of
                  (r', tr, fs') \<Rightarrow> (r', i # tr, Some f' # fs')))"

definition check :: "(fixplex \<Rightarrow> lbool \<times> fixplex) \<Rightarrow> linear_solver \<Rightarrow> lbool \<times> linear_solver" where
  "check mf s =
     (case check_loop mf 0 (m_fix s) l_true of (r, tr, fs) \<Rightarrow> (r, s\<lparr>m_fix := fs\<rparr>))"

definition checked_widths :: "(fixplex \<Rightarrow> lbool \<times> fixplex) \<Rightarrow> linear_solver \<Rightarrow> nat list" where
  "checked_widths mf s = fst (snd (check_loop mf 0 (m_fix s) l_true))"

text \<open>
  The walk "first infeasible wins" through the engines of the widths listed in \<open>order\<close>,
  in that order: with the order in which the partitions were created it is \<^verbatim>\<open>check\<close> as
  described, to be compared with the loop above.
\<close>

fun check_in_order ::
  "(fixplex \<Rightarrow> lbool \<times> fixplex) \<Rightarrow> nat list \<Rightarrow> fixplex option list \<Rightarrow> lbool \<Rightarrow> lbool \<times> nat list" where
  "check_in_order mf [] fx res = (res, [])"
| "check_in_order mf (w # ws) fx res =
     (case fix_get fx w of
        None \<Rightarrow> check_in_order mf ws fx res
      | Some f \<Rightarrow>
          if fst (mf f) = l_false then (l_false, [w])
          else (case check_in_order mf ws fx (if fst (mf f) = l_undef then l_undef else res) of
                  (r, tr) \<Rightarrow> (r, w # tr)))"

text \<open>Sequences of operations on the linear solver.\<close>

datatype ls_op =
    Push
  | Pop nat
  | New_constraint constraint
  | Activate_constraint constraint
  | Set_value nat int
  | Set_bound nat int int
  | Mono2var nat "nat list"
  | Pvar2var nat nat
  | Fresh_var nat
  | Internalize_pdd pdd

fun apply_op :: "ls_op \<Rightarrow> linear_solver \<Rightarrow> error + linear_solver" where
  "apply_op Push s = Inr (push s)"
| "apply_op (Pop n) s = pop n s"
| "apply_op (New_constraint c) s = new_constraint c s"
| "apply_op (Activate_constraint c) s = activate_constraint c s"
| "apply_op (Set_value v x) s = set_value v x s"
| "apply_op (Set_bound v l h) s = set_bound v l h s"
| "apply_op (Mono2var sz vs) s = Inr (snd (mono2var sz vs s))"
| "apply_op (Pvar2var sz v) s = Inr (snd (pvar2var sz v s))"
| "apply_op (Fresh_var sz) s = Inr (snd (fresh_var sz s))"
| "apply_op (Internalize_pdd p) s = map_sum id snd (internalize_pdd p s)"

fun run_ops :: "ls_op list \<Rightarrow> linear_solver \<Rightarrow> error + linear_solver" where
  "run_ops [] s = Inr s"
| "run_ops (x # xs) s = (case apply_op x s of Inl e \<Rightarrow> Inl e | Inr s' \<Rightarrow> run_ops xs s')"

text \<open>
  The push depth after a sequence of operations that starts at depth \<open>k\<close>; there is none
  when a \<open>Pop\<close> asks for more levels than have been pushed within the sequence.
\<close>

fun depth_after :: "ls_op list \<Rightarrow> nat \<Rightarrow> nat option" where
  "depth_after [] k = Some k"
| "depth_after (Push # xs) k = depth_after xs (Suc k)"
| "depth_after (Pop n # xs) k = (if n \<le> k then depth_after xs (k - n) else None)"
| "depth_after (x # xs) k = depth_after xs k"

definition num_vars :: "linear_solver \<Rightarrow> nat \<Rightarrow> var_t" where
  "num_vars s sz = (if sz < length (m_sz2num_vars s) then m_sz2num_vars s ! sz else 0)"

definition init_solver :: "(nat \<Rightarrow> nat) \<Rightarrow> linear_solver" where
  "init_solver sizes =
     \<lparr>m_trail = [], m_rows = [], m_sz2num_vars = [], m_mono2var = Map.empty, m_monomials = [],
      m_fix = [], m_bool_var2row = [], m_vars = [], m_coeffs = [], ls_size = sizes\<rparr>"

text \<open>Notions used to state and prove the properties of the trail.\<close>

definition markers :: "trail_i list \<Rightarrow> nat" where
  "markers tr = length (filter (\<lambda>e. e = inc_level_i) tr)"

text \<open>
  Undoing the entries \<open>es\<close> that lie on top of the trail \<open>rest\<close>, as the loop of
  \<^verbatim>\<open>pop\<close> does one by one.
\<close>

fun undo_list :: "trail_i list \<Rightarrow> trail_i list \<Rightarrow> linear_solver \<Rightarrow> error + linear_solver" where
  "undo_list [] rest s = Inr s"
| "undo_list (e # es) rest s =
     (case undo_entry e s of
        Inl x \<Rightarrow> Inl x
      | Inr s' \<Rightarrow> undo_list es rest (s'\<lparr>m_trail := es @ rest\<rparr>))"

text \<open>
  The engine \<^verbatim>\<open>sz2fixplex(sz)\<close> hands out: the one stored, or a new one for a supported
  width.
\<close>

definition engine_at :: "nat \<Rightarrow> linear_solver \<Rightarrow> fixplex option" where
  "engine_at sz s =
     (case fix_get (m_fix s) sz of
        Some b \<Rightarrow> Some b
      | None \<Rightarrow> if sz = 32 \<or> sz = 64 \<or> sz = 256 then Some (mk_fixplex sz) else None)"

text \<open>
  \<open>restored s t\<close>: the state \<open>t\<close> shows what \<open>s\<close> shows. Trail, rows, interning table and
  monomials are equal; every width has the same variable counter (a counter never
  allocated reads 0); every engine of \<open>s\<close> is in \<open>t\<close> with the same rows, bounds and
  inequalities, and an engine \<open>t\<close> has beyond those of \<open>s\<close> is as \<^verbatim>\<open>sz2fixplex\<close> builds it,
  without rows, bounds or inequalities. The vectors themselves may have grown, and the
  scratch vectors and \<^verbatim>\<open>m_bool_var2row\<close> are not compared.
\<close>

definition restored :: "linear_solver \<Rightarrow> linear_solver \<Rightarrow> bool" where
  "restored s t =
     (m_trail t = m_trail s \<and> m_rows t = m_rows s \<and> m_mono2var t = m_mono2var s \<and>
      m_monomials t = m_monomials s \<and> ls_size t = ls_size s \<and>
      (\<exists>k. m_sz2num_vars t = m_sz2num_vars s @ replicate k 0) \<and>
      (\<forall>i. fix_get (m_fix t) i = fix_get (m_fix s) i \<or>
           (fix_get (m_fix s) i = None \<and> fix_get (m_fix t) i = Some (mk_fixplex i))))"

text \<open>
  \<open>reaches k s t\<close>: the trail of \<open>t\<close> is that of \<open>s\<close> with entries on top, \<open>k\<close> level markers
  among them, and undoing these entries leads from \<open>t\<close> back to \<open>s\<close>.
\<close>

definition reaches :: "nat \<Rightarrow> linear_solver \<Rightarrow> linear_solver \<Rightarrow> bool" where
  "reaches k s t =
     (\<exists>new t'. m_trail t = new @ m_trail s \<and> markers new = k \<and>
        undo_list new (m_trail s) t = Inr t' \<and> restored s t')"

text \<open>Engines exist only for the supported widths, each with the representation of its width.\<close>

definition fix_ok :: "fixplex option list \<Rightarrow> bool" where
  "fix_ok fx =
     list_all (\<lambda>(i, e). case e of None \<Rightarrow> True
                                 | Some b \<Rightarrow> (i = 32 \<or> i = 64 \<or> i = 256) \<and> fp_bits b = i)
       (enumerate 0 fx)"

text \<open>The widths that have an engine, in ascending order, and the verdict of each.\<close>

definition allocated :: "fixplex option list \<Rightarrow> nat list" where
  "allocated fx = filter (\<lambda>i. fx ! i \<noteq> None) [0 ..< length fx]"

definition verdict :: "(fixplex \<Rightarrow> lbool \<times> fixplex) \<Rightarrow> fixplex option list \<Rightarrow> nat \<Rightarrow> lbool" where
  "verdict mf fx w = (case fix_get fx w of None \<Rightarrow> l_true | Some f \<Rightarrow> fst (mf f))"

section \<open>Properties of the viable sets\<close>

lemmas vs_defs = is_empty_def is_free_def set_empty_def p2_def is_max_def in_range_def

lemma contains_iff:
  "well_formed vs \<Longrightarrow> 0 \<le> x \<Longrightarrow>
     contains vs x \<longleftrightarrow> \<not> emp vs \<and> lo vs \<le> x \<and> (hi vs = 0 \<or> x < hi vs)"
  unfolding contains_def well_formed_def is_empty_def is_free_def by auto

lemma adm_iff:
  "well_formed vs \<Longrightarrow>
     admissible vs x \<longleftrightarrow> \<not> emp vs \<and> 0 \<le> x \<and> x < p2 vs \<and> lo vs \<le> x \<and> (hi vs = 0 \<or> x < hi vs)"
  unfolding admissible_def using contains_iff [of vs x] by auto

lemma bits_set_hi [simp]: "m_num_bits (set_hi d vs) = m_num_bits vs"
  by (simp add: set_hi_def vs_defs)

lemma bits_set_lo [simp]: "m_num_bits (set_lo b vs) = m_num_bits vs"
  by (simp add: set_lo_def vs_defs)

lemma bits_intersect_eq_pt [simp]: "m_num_bits (intersect_eq_pt a p vs) = m_num_bits vs"
  by (simp add: intersect_eq_pt_def vs_defs)

lemma wf_set_hi: "well_formed vs \<Longrightarrow> in_range vs d \<Longrightarrow> well_formed (set_hi d vs)"
  unfolding set_hi_def well_formed_def vs_defs by auto

lemma wf_set_lo: "well_formed vs \<Longrightarrow> in_range vs b \<Longrightarrow> well_formed (set_lo b vs)"
  unfolding set_lo_def well_formed_def vs_defs by auto

lemma wf_intersect_eq_pt:
  assumes "well_formed vs" "in_range vs a"
  shows "well_formed (intersect_eq_pt a p vs)"
proof (cases "emp vs")
  case True
  then show ?thesis using assms by (simp add: intersect_eq_pt_def is_empty_def)
next
  case False
  have c: "contains vs a \<longleftrightarrow> lo vs \<le> a \<and> (hi vs = 0 \<or> a < hi vs)"
    using contains_iff [OF assms(1), of a] assms(2) False by (simp add: in_range_def)
  from assms False show ?thesis
    unfolding intersect_eq_pt_def c
    by (simp add: well_formed_def vs_defs) linarith
qed

lemma keep_set_hi:
  assumes "well_formed vs" "in_range vs d" "admissible vs x" "x \<le> d"
  shows "admissible (set_hi d vs) x"
proof -
  have w: "well_formed (set_hi d vs)" using assms by (simp add: wf_set_hi)
  have "\<not> emp vs" "0 \<le> x" "x < p2 vs" "lo vs \<le> x" "hi vs = 0 \<or> x < hi vs"
    using assms(3) adm_iff [OF assms(1)] by auto
  then show ?thesis
    unfolding adm_iff [OF w] using assms(4)
    by (simp add: set_hi_def vs_defs) 
qed

lemma keep_set_lo:
  assumes "well_formed vs" "in_range vs b" "admissible vs x" "b \<le> x"
  shows "admissible (set_lo b vs) x"
proof -
  have w: "well_formed (set_lo b vs)" using assms by (simp add: wf_set_lo)
  have "\<not> emp vs" "0 \<le> x" "x < p2 vs" "lo vs \<le> x" "hi vs = 0 \<or> x < hi vs"
    using assms(3) adm_iff [OF assms(1)] by auto
  moreover have "hi vs = 0 \<or> lo vs < hi vs"
    using assms(1) \<open>\<not> emp vs\<close> by (auto simp: well_formed_def)
  ultimately show ?thesis
    unfolding adm_iff [OF w] using assms(4)
    by (auto simp add: set_lo_def vs_defs) 
qed

lemma pt_pos:
  assumes "in_range vs a"
  shows "admissible (intersect_eq_pt a True vs) x \<longleftrightarrow> admissible vs x \<and> x = a"
proof (cases "contains vs a")
  case True
  then have ne: "\<not> emp vs" by (auto simp: contains_def is_empty_def)
  show ?thesis
  proof (cases "is_max vs a")
    case m: True
    have "intersect_eq_pt a True vs = vs\<lparr>lo := a, hi := 0\<rparr>"
      using True m ne by (simp add: intersect_eq_pt_def is_empty_def)
    then show ?thesis using True m ne assms
      by (auto simp: admissible_def contains_def vs_defs)
  next
    case m: False
    have "intersect_eq_pt a True vs = vs\<lparr>lo := a, hi := a + 1\<rparr>"
      using True m ne by (simp add: intersect_eq_pt_def is_empty_def)
    then show ?thesis using True m ne assms
      by (auto simp: admissible_def contains_def vs_defs)
  qed
next
  case False
  then have "emp (intersect_eq_pt a True vs)"
    by (simp add: intersect_eq_pt_def is_empty_def set_empty_def)
  then show ?thesis using False
    by (auto simp: admissible_def contains_def is_empty_def)
qed

lemma pt_neg:
  assumes "well_formed vs" "in_range vs a"
  shows "admissible (intersect_eq_pt a False vs) x \<longleftrightarrow>
           (if lo vs < a \<and> a + 1 < upper_end vs then admissible vs x else admissible vs x \<and> x \<noteq> a)"
proof (cases "emp vs")
  case True
  then show ?thesis 
    by (auto simp: intersect_eq_pt_def is_empty_def admissible_def contains_def)
next
  case False
  have w: "well_formed (intersect_eq_pt a False vs)"
    using assms by (rule wf_intersect_eq_pt)
  have c: "contains vs a \<longleftrightarrow> lo vs \<le> a \<and> (hi vs = 0 \<or> a < hi vs)"
    using contains_iff [OF assms(1), of a] assms(2) False by (simp add: in_range_def)
  have f: "0 \<le> lo vs" "lo vs < p2 vs" "0 \<le> hi vs" "hi vs < p2 vs" "hi vs = 0 \<or> lo vs < hi vs"
    using assms(1) False by (auto simp: well_formed_def)
  show ?thesis
    unfolding adm_iff [OF w] using False f assms(2)
    apply (simp add: adm_iff [OF assms(1)] upper_end_def)
    apply (simp add: intersect_eq_pt_def c vs_defs)
    apply (intro conjI impI)
    apply auto
    done
qed

lemma odd_coprime_pow2: "odd (a::int) \<Longrightarrow> coprime a (2 ^ n)"
  by (simp add: coprime_right_2_iff_odd coprime_power_right_iff)

lemma inverse_exists:
  assumes "odd (a::int)"
  shows "\<exists>x. 0 \<le> x \<and> x < 2 ^ n \<and> (a * x) mod 2 ^ n = 1 mod 2 ^ n"
proof -
  obtain u v where uv: "u * a + v * 2 ^ n = gcd a (2 ^ n)"
    using bezout_int [of a "2 ^ n"] by blast
  have g: "gcd a (2 ^ n) = 1"
    using odd_coprime_pow2 [OF assms, of n] by (simp add: coprime_iff_gcd_eq_1)
  have "a * u = 1 - v * 2 ^ n" using uv g by (simp add: algebra_simps)
  then have "(a * u) mod 2 ^ n = 1 mod 2 ^ n"
    by (metis mod_diff_right_eq mod_mult_self2_is_0 diff_zero)
  then have "(a * (u mod 2 ^ n)) mod 2 ^ n = 1 mod 2 ^ n"
    by (simp add: mod_mult_right_eq)
  moreover have "0 \<le> u mod 2 ^ n" "u mod 2 ^ n < 2 ^ n" by simp_all
  ultimately show ?thesis by blast
qed

lemma find_SomeD: "List.find P xs = Some x \<Longrightarrow> P x \<and> x \<in> set xs"
  by (induction xs) (auto split: if_splits)

lemma mult_inverse_odd:
  assumes "odd a"
  shows "\<exists>x. mult_inverse a n = Some x \<and> 0 \<le> x \<and> x < 2 ^ n \<and> (a * x) mod 2 ^ n = 1 mod 2 ^ n"
proof -
  obtain y where y: "0 \<le> y" "y < 2 ^ n" "(a * y) mod 2 ^ n = 1 mod 2 ^ n"
    using inverse_exists [OF assms, of n] by blast
  let ?P = "\<lambda>x. (a * x) mod 2 ^ n = 1 mod 2 ^ n"
  have "y \<in> set [0 .. 2 ^ n - 1]" using y by simp
  then have "List.find ?P [0 .. 2 ^ n - 1] \<noteq> None"
    using y(3) by (auto simp: find_None_iff)
  then obtain x where x: "List.find ?P [0 .. 2 ^ n - 1] = Some x" by blast
  then have "?P x" "x \<in> set [0 .. 2 ^ n - 1]"
    using find_SomeD [of ?P "[0 .. 2 ^ n - 1]" x] by simp_all
  then show ?thesis using x assms by (simp add: mult_inverse_def)
qed

lemma unique_solution:
  fixes a b x ai :: int
  assumes inv: "(a * ai) mod 2 ^ n = 1 mod 2 ^ n" and x: "0 \<le> x" "x < 2 ^ n"
  shows "(a * x + b) mod 2 ^ n = 0 \<longleftrightarrow> x = (ai * - b) mod 2 ^ n"
proof -
  have swap: "((a * ai) * y + z) mod 2 ^ n = (y + z) mod 2 ^ n" for y z
  proof -
    have "((a * ai) * y + z) mod 2 ^ n = ((a * ai) mod 2 ^ n * y + z) mod 2 ^ n"
      by (metis mod_add_left_eq mod_mult_left_eq)
    also have "\<dots> = (1 mod 2 ^ n * y + z) mod 2 ^ n" by (simp only: inv)
    also have "\<dots> = (1 * y + z) mod 2 ^ n"
      by (metis mod_add_left_eq mod_mult_left_eq)
    finally show ?thesis by simp
  qed
  show ?thesis
  proof
    assume "(a * x + b) mod 2 ^ n = 0"
    then have "(ai * (a * x + b)) mod 2 ^ n = 0"
      by (metis mod_mult_right_eq mult_zero_right mod_0)
    then have "((a * ai) * x + ai * b) mod 2 ^ n = 0"
      by (simp add: algebra_simps)
    then have "(x + ai * b) mod 2 ^ n = 0"
      by (simp only: swap)
    then have "2 ^ n dvd x - (ai * - b)"
      by (simp add: mod_eq_0_iff_dvd)
    then have "x mod 2 ^ n = (ai * - b) mod 2 ^ n"
      by (simp only: mod_eq_dvd_iff)
    then show "x = (ai * - b) mod 2 ^ n" using x by simp
  next
    assume e: "x = (ai * - b) mod 2 ^ n"
    have "(a * x + b) mod 2 ^ n = (a * (ai * - b) + b) mod 2 ^ n"
      unfolding e by (metis mod_add_left_eq mod_mult_right_eq)
    also have "\<dots> = ((a * ai) * (- b) + b) mod 2 ^ n" by (simp add: algebra_simps)
    also have "\<dots> = (- b + b) mod 2 ^ n" by (simp only: swap)
    finally show "(a * x + b) mod 2 ^ n = 0" by simp
  qed
qed

lemma keep_pt:
  assumes "well_formed vs" "in_range vs a" "admissible vs x" "p \<longleftrightarrow> x = a"
  shows "admissible (intersect_eq_pt a p vs) x"
proof (cases p)
  case True
  then show ?thesis using assms pt_pos [OF assms(2)] by simp
next
  case False
  then show ?thesis using assms pt_neg [OF assms(1,2)] by (simp split: if_splits)
qed

lemma narrow_lo_step:
  assumes "well_formed vs" "\<not> emp vs" "\<not> is_max vs (lo vs)"
  shows "well_formed (set_lo (lo vs + 1) (vs\<lparr>lo := lo vs + 1\<rparr>))"
    and "admissible vs x \<Longrightarrow> x \<noteq> lo vs \<Longrightarrow> admissible (set_lo (lo vs + 1) (vs\<lparr>lo := lo vs + 1\<rparr>)) x"
proof -
  have f: "0 \<le> lo vs" "lo vs < p2 vs" "0 \<le> hi vs" "hi vs < p2 vs" "hi vs = 0 \<or> lo vs < hi vs"
    using assms(1,2) by (auto simp: well_formed_def)
  show w: "well_formed (set_lo (lo vs + 1) (vs\<lparr>lo := lo vs + 1\<rparr>))"
    using f assms(2,3) by (auto simp: set_lo_def well_formed_def vs_defs)
  assume "admissible vs x" "x \<noteq> lo vs"
  then have "0 \<le> x" "x < p2 vs" "lo vs < x" "hi vs = 0 \<or> x < hi vs"
    using adm_iff [OF assms(1)] by auto
  then show "admissible (set_lo (lo vs + 1) (vs\<lparr>lo := lo vs + 1\<rparr>)) x"
    unfolding adm_iff [OF w] using f assms(2,3)
    by (auto simp: set_lo_def vs_defs)
qed

lemma narrow_hi_step:
  assumes "well_formed vs" "\<not> emp vs" "hi vs > 0"
  shows "well_formed (set_hi (hi vs - 1) (vs\<lparr>hi := hi vs - 1\<rparr>))"
    and "admissible vs x \<Longrightarrow> admissible (set_hi (hi vs - 1) (vs\<lparr>hi := hi vs - 1\<rparr>)) x"
proof -
  have f: "0 \<le> lo vs" "lo vs < p2 vs" "0 \<le> hi vs" "hi vs < p2 vs" "lo vs < hi vs"
    using assms by (auto simp: well_formed_def)
  show w: "well_formed (set_hi (hi vs - 1) (vs\<lparr>hi := hi vs - 1\<rparr>))"
    using f assms(2,3) by (auto simp: set_hi_def well_formed_def vs_defs)
  assume "admissible vs x"
  then have "0 \<le> x" "x < p2 vs" "lo vs \<le> x" "x < hi vs"
    using adm_iff [OF assms(1)] assms(3) by auto
  then show "admissible (set_hi (hi vs - 1) (vs\<lparr>hi := hi vs - 1\<rparr>)) x"
    unfolding adm_iff [OF w] using f assms(2,3)
    by (auto simp: set_hi_def vs_defs)
qed

lemma narrow_lo_keeps:
  "well_formed vs \<Longrightarrow>
     well_formed (snd (narrow_lo ev k vs)) \<and>
     m_num_bits (snd (narrow_lo ev k vs)) = m_num_bits vs \<and>
     (admissible vs x \<longrightarrow> ev x \<longrightarrow> admissible (snd (narrow_lo ev k vs)) x)"
proof (induction ev k vs rule: narrow_lo.induct)
  case (1 ev vs)
  then show ?case by simp
next
  case (2 ev k vs)
  show ?case
  proof (cases "\<not> ev (lo vs) \<and> \<not> is_max vs (lo vs) \<and> \<not> is_empty vs")
    case True
    let ?vs = "set_lo (lo vs + 1) (vs\<lparr>lo := lo vs + 1\<rparr>)"
    have ne: "\<not> emp vs" "\<not> is_max vs (lo vs)" using True by (simp_all add: is_empty_def)
    have w: "well_formed ?vs" using narrow_lo_step(1) [OF "2.prems" ne] .
    have k: "admissible vs x \<Longrightarrow> ev x \<Longrightarrow> admissible ?vs x"
      using narrow_lo_step(2) [OF "2.prems" ne, of x] True by auto
    have b: "m_num_bits ?vs = m_num_bits vs" by simp
    from "2.IH" [OF True w] k b True show ?thesis by simp
  next
    case False
    then show ?thesis using "2.prems" by auto
  qed
qed

lemma narrow_hi_keeps:
  "well_formed vs \<Longrightarrow>
     well_formed (snd (narrow_hi ev k vs)) \<and>
     m_num_bits (snd (narrow_hi ev k vs)) = m_num_bits vs \<and>
     (admissible vs x \<longrightarrow> admissible (snd (narrow_hi ev k vs)) x)"
proof (induction ev k vs rule: narrow_hi.induct)
  case (1 ev vs)
  then show ?case by simp
next
  case (2 ev k vs)
  show ?case
  proof (cases "hi vs > 0 \<and> \<not> ev (hi vs - 1) \<and> \<not> is_empty vs")
    case True
    let ?vs = "set_hi (hi vs - 1) (vs\<lparr>hi := hi vs - 1\<rparr>)"
    have ne: "\<not> emp vs" "hi vs > 0" using True by (simp_all add: is_empty_def)
    have w: "well_formed ?vs" using narrow_hi_step(1) [OF "2.prems" ne] .
    have k: "admissible vs x \<Longrightarrow> admissible ?vs x"
      using narrow_hi_step(2) [OF "2.prems" ne, of x] by auto
    have b: "m_num_bits ?vs = m_num_bits vs" by simp
    from "2.IH" [OF True w] k b True show ?thesis by simp
  next
    case False
    then show ?thesis using "2.prems" by auto
  qed
qed

lemma narrow_keeps:
  assumes "well_formed vs"
  shows "well_formed (snd (narrow ev k vs))"
    and "m_num_bits (snd (narrow ev k vs)) = m_num_bits vs"
    and "admissible vs x \<Longrightarrow> ev x \<Longrightarrow> admissible (snd (narrow ev k vs)) x"
proof -
  obtain k1 vs1 where n1: "narrow_lo ev k vs = (k1, vs1)" by (cases "narrow_lo ev k vs")
  have a: "well_formed vs1" "m_num_bits vs1 = m_num_bits vs"
       "admissible vs x \<Longrightarrow> ev x \<Longrightarrow> admissible vs1 x"
    using narrow_lo_keeps [OF assms, of ev k x] n1 by simp_all
  have e: "narrow ev k vs = narrow_hi ev k1 vs1" by (simp add: narrow_def n1)
  show "well_formed (snd (narrow ev k vs))" "m_num_bits (snd (narrow ev k vs)) = m_num_bits vs"
    "admissible vs x \<Longrightarrow> ev x \<Longrightarrow> admissible (snd (narrow ev k vs)) x"
    using narrow_hi_keeps [OF a(1), of ev k1 x] a(2,3) unfolding e by simp_all
qed

lemma eq_fast_odd:
  assumes "odd a"
  shows "\<exists>ai. mult_inverse a (m_num_bits vs) = Some ai \<and> (a * ai) mod p2 vs = 1 mod p2 vs \<and>
           intersect_eq_fast a b p vs = Inr (True, intersect_eq_pt ((ai * - b) mod p2 vs) p vs)"
proof -
  obtain ai where ai: "mult_inverse a (m_num_bits vs) = Some ai"
      "(a * ai) mod 2 ^ m_num_bits vs = 1 mod 2 ^ m_num_bits vs"
    using mult_inverse_odd [OF assms, of "m_num_bits vs"] by blast
  have "intersect_eq_fast a b p vs = Inr (True, intersect_eq_pt ((ai * - b) mod p2 vs) p vs)"
    using assms ai(1) by (simp add: intersect_eq_fast_def)
  then show ?thesis using ai by (auto simp: p2_def)
qed

lemma eq_holds_pt:
  assumes "(a * ai) mod p2 vs = 1 mod p2 vs" "in_range vs x"
  shows "eq_holds (m_num_bits vs) a b p x \<longleftrightarrow> (p \<longleftrightarrow> x = (ai * - b) mod p2 vs)"
  using unique_solution [of a ai "m_num_bits vs" x b] assms
  by (simp add: eq_holds_def p2_def in_range_def)

lemma pt_in_range: "in_range vs (y mod p2 vs)"
  by (simp add: in_range_def p2_def)

lemma adm_in_range: "admissible vs x \<Longrightarrow> in_range vs x"
  by (simp add: admissible_def in_range_def)

lemma keep_eq_fast:
  assumes "well_formed vs" "intersect_eq_fast a b p vs = Inr (True, vs')"
    "admissible vs x" "eq_holds (m_num_bits vs) a b p x"
  shows "admissible vs' x" "well_formed vs'" "m_num_bits vs' = m_num_bits vs"
proof -
  have o: "odd a" using assms(2) by (auto simp: intersect_eq_fast_def split: if_splits)
  obtain ai where ai: "(a * ai) mod p2 vs = 1 mod p2 vs"
    "intersect_eq_fast a b p vs = Inr (True, intersect_eq_pt ((ai * - b) mod p2 vs) p vs)"
    using eq_fast_odd [OF o, of vs b p] by blast
  have e: "vs' = intersect_eq_pt ((ai * - b) mod p2 vs) p vs" using ai(2) assms(2) by simp
  have "p \<longleftrightarrow> x = (ai * - b) mod p2 vs"
    using eq_holds_pt [OF ai(1) adm_in_range [OF assms(3)], of b p] assms(4) by simp
  then show "admissible vs' x" unfolding e
    using keep_pt [OF assms(1) pt_in_range assms(3)] by blast
  show "well_formed vs'" unfolding e using wf_intersect_eq_pt [OF assms(1) pt_in_range] .
  show "m_num_bits vs' = m_num_bits vs" unfolding e by simp
qed

lemma sup_run_props:
  "x \<le> sup_run g x k \<and> sup_run g x k \<le> x + int k \<and>
   (\<forall>y. x < y \<and> y \<le> sup_run g x k \<longrightarrow> g y)"
proof (induction k arbitrary: x)
  case 0
  then show ?case by auto
next
  case (Suc k)
  show ?case
  proof (cases "g (x + 1)")
    case True
    have "y = x + 1 \<or> x + 1 < y" if "x < y" for y :: int using that by linarith
    with Suc [of "x + 1"] True show ?thesis
      by auto
  next
    case False
    then show ?thesis by auto
  qed
qed

lemma mod_id: "in_range vs x \<Longrightarrow> x mod 2 ^ m_num_bits vs = x"
  by (simp add: in_range_def p2_def)

lemma ule_shape1:
  assumes "odd a" "in_range vs x"
  shows "ule_holds (m_num_bits vs) a 0 0 0 p x \<longleftrightarrow> (p \<longleftrightarrow> x = 0)"
proof -
  obtain ai where ai: "(a * ai) mod p2 vs = 1 mod p2 vs"
    using eq_fast_odd [OF assms(1), of vs 0 p] by blast
  have "(a * x) mod 2 ^ m_num_bits vs \<le> 0 \<longleftrightarrow> (a * x) mod 2 ^ m_num_bits vs = 0"
  proof -
    have "0 \<le> (a * x) mod 2 ^ m_num_bits vs" by simp
    then show ?thesis by linarith
  qed
  then have "ule_holds (m_num_bits vs) a 0 0 0 p x \<longleftrightarrow> eq_holds (m_num_bits vs) a 0 p x"
    by (simp add: ule_holds_def eq_holds_def)
  then show ?thesis using eq_holds_pt [OF ai assms(2), of 0 p] by simp
qed

lemma ule_shape2:
  assumes "in_range vs x" "in_range vs d"
  shows "ule_holds (m_num_bits vs) 1 0 0 d p x \<longleftrightarrow> (p \<longleftrightarrow> x \<le> d)"
  using mod_id [OF assms(1)] mod_id [OF assms(2)] by (simp add: ule_holds_def)

lemma ule_shape3:
  assumes "in_range vs x" "in_range vs b"
  shows "ule_holds (m_num_bits vs) 0 b 1 0 p x \<longleftrightarrow> (p \<longleftrightarrow> b \<le> x)"
  using mod_id [OF assms(1)] mod_id [OF assms(2)] by (simp add: ule_holds_def)

lemma zero_in_range: "in_range vs 0"
  by (simp add: in_range_def p2_def)

lemma keep_ule_fast:
  assumes wf: "well_formed vs" and b: "in_range vs b" and d: "in_range vs d"
    and r: "intersect_ule_fast a b c d p vs = (True, vs')"
    and x: "admissible vs x" and h: "ule_holds (m_num_bits vs) a b c d p x"
  shows "admissible vs' x"
proof -
  note xr = adm_in_range [OF x]
  consider (s1) "odd a \<and> b = 0 \<and> c = 0 \<and> d = 0"
    | (s2) "\<not> (odd a \<and> b = 0 \<and> c = 0 \<and> d = 0)" "a = 1 \<and> b = 0 \<and> c = 0"
    | (s3) "\<not> (odd a \<and> b = 0 \<and> c = 0 \<and> d = 0)" "\<not> (a = 1 \<and> b = 0 \<and> c = 0)" "a = 0 \<and> c = 1 \<and> d = 0"
    using r by (auto simp: intersect_ule_fast_def split: if_splits)
  then show ?thesis
  proof cases
    case s1
    then have e: "vs' = intersect_eq_pt 0 p vs" using r by (simp add: intersect_ule_fast_def)
    have "p \<longleftrightarrow> x = 0" using ule_shape1 [of a vs x p] s1 xr h by simp
    then show ?thesis unfolding e using keep_pt [OF wf zero_in_range x] by blast
  next
    case s2
    have px: "p \<longleftrightarrow> x \<le> d" using ule_shape2 [OF xr d, of p] s2 h by simp
    show ?thesis
    proof (cases p)
      case True
      then have e: "vs' = set_hi d vs" using r s2 by (simp add: intersect_ule_fast_def)
      show ?thesis unfolding e using keep_set_hi [OF wf d x] px True by simp
    next
      case False
      have nm: "\<not> is_max vs d" using px False xr by (auto simp: is_max_def in_range_def p2_def)
      then have e: "vs' = set_lo (d + 1) vs" using r s2 False by (simp add: intersect_ule_fast_def)
      have "in_range vs (d + 1)" using d nm px False xr by (auto simp: is_max_def in_range_def p2_def)
      then show ?thesis unfolding e using keep_set_lo [OF wf _ x] px False by simp
    qed
  next
    case s3
    have px: "p \<longleftrightarrow> b \<le> x" using ule_shape3 [OF xr b, of p] s3 h by simp
    show ?thesis
    proof (cases p)
      case True
      then have e: "vs' = set_lo b vs" using r s3 by (simp add: intersect_ule_fast_def)
      show ?thesis unfolding e using keep_set_lo [OF wf b x] px True by simp
    next
      case False
      have nz: "b \<noteq> 0" using px False xr by (auto simp: in_range_def)
      then have e: "vs' = set_hi (b - 1) vs" using r s3 False by (simp add: intersect_ule_fast_def)
      have "in_range vs (b - 1)" using b nz by (auto simp: in_range_def)
      then show ?thesis unfolding e using keep_set_hi [OF wf _ x] px False by simp
    qed
  qed
qed

lemma ule_fast_False: "intersect_ule_fast a b c d p vs = (False, vs') \<Longrightarrow> vs' = vs"
  by (auto simp: intersect_ule_fast_def split: if_splits)

lemma find_append_new:
  "List.find P xs = None \<Longrightarrow> P e \<Longrightarrow> List.find P (xs @ [e]) = Some e"
  by (induction xs) (auto split: if_splits)

lemma cache_lookup_entry:
  assumes "cache_ok cache"
  shows "\<exists>other. List.find (same_key sz a b c d) (cache_lookup sz a b c d cache) = Some other
           \<and> repr other = ule_holds sz a b c d True"
proof (cases "List.find (same_key sz a b c d) cache")
  case None
  then show ?thesis
    by (simp add: cache_lookup_def find_append_new same_key_def)
next
  case (Some e)
  then have "same_key sz a b c d e" "e \<in> set cache" using find_SomeD [OF Some] by simp_all
  then have "repr e = ule_holds sz a b c d True"
    using assms by (auto simp: cache_ok_def list_all_iff same_key_def)
  then show ?thesis using Some by (simp add: cache_lookup_def)
qed

lemma keep_ule_fallback:
  assumes wf: "well_formed vs" and x: "admissible vs x"
    and h: "ule_holds (m_num_bits vs) a b c d p x"
    and f: "List.find (same_key (m_num_bits vs) a b c d) cache = Some other"
    and rp: "repr other = ule_holds (m_num_bits vs) a b c d True"
  shows "admissible (ule_fallback (m_num_bits vs) a b c d p cache vs) x"
proof -
  let ?g = "\<lambda>y. if p then \<not> repr other y else repr other y"
  have g: "?g y \<longleftrightarrow> \<not> ule_holds (m_num_bits vs) a b c d p y" for y
    unfolding rp by (auto simp: ule_holds_def)
  show ?thesis
  proof (cases "fdd_sup (m_num_bits vs) ?g (lo vs)")
    case None
    then show ?thesis using f x by (simp add: ule_fallback_def)
  next
    case (Some bound)
    then have e: "ule_fallback (m_num_bits vs) a b c d p cache vs = set_ne bound (set_lo bound vs)"
      using f by (simp add: ule_fallback_def)
    have glo: "?g (lo vs)" and bd: "bound = sup_run ?g (lo vs) (nat (2 ^ m_num_bits vs - 1 - lo vs))"
      using Some by (auto simp: fdd_sup_def split: if_splits)
    have xf: "\<not> emp vs" "0 \<le> x" "x < p2 vs" "lo vs \<le> x"
      using x adm_iff [OF wf] by auto
    have lf: "0 \<le> lo vs" "lo vs < p2 vs" using wf xf(1) by (auto simp: well_formed_def)
    have sp: "lo vs \<le> bound" "bound \<le> lo vs + int (nat (2 ^ m_num_bits vs - 1 - lo vs))"
      "\<And>y. lo vs < y \<Longrightarrow> y \<le> bound \<Longrightarrow> ?g y"
      using sup_run_props [of "lo vs" ?g "nat (2 ^ m_num_bits vs - 1 - lo vs)"] unfolding bd by blast+
    have br: "in_range vs bound" using sp(1,2) lf by (auto simp: in_range_def p2_def)
    have "\<not> ?g x" using g h by simp
    then have "x \<noteq> lo vs" "\<not> (lo vs < x \<and> x \<le> bound)" using glo sp(3) [of x] by auto
    then have xb: "bound < x" using xf(4) by linarith
    have 1: "admissible (set_lo bound vs) x" using keep_set_lo [OF wf br x] xb by simp
    have 2: "well_formed (set_lo bound vs)" using wf_set_lo [OF wf br] .
    have 3: "in_range (set_lo bound vs) bound" using br by (simp add: in_range_def p2_def)
    show ?thesis unfolding e set_ne_def using keep_pt [OF 2 3 1, of False] xb by simp
  qed
qed

lemma viable_eq_result:
  assumes "viable_intersect_eq a v b p st = Inr st'"
  shows "v < length (m_viable st)"
    and "\<exists>ok vs1. intersect_eq_fast a b p (m_viable st ! v) = Inr (ok, vs1) \<and>
           m_viable st' ! v = (if ok then vs1 else snd (intersect_eq_budget a b p 10 vs1))"
proof -
  show v: "v < length (m_viable st)"
    using assms by (auto simp: viable_intersect_eq_def push_viable_def split: if_splits)
  obtain ok vs1 where f: "intersect_eq_fast a b p (m_viable st ! v) = Inr (ok, vs1)"
    using assms v by (auto simp: viable_intersect_eq_def push_viable_def split: sum.splits)
  have "m_viable st' ! v = (if ok then vs1 else snd (intersect_eq_budget a b p 10 vs1))"
    using assms v f
    by (auto simp: viable_intersect_eq_def push_viable_def conflict_if_empty_def set_conflict_def Let_def)
  then show "\<exists>ok vs1. intersect_eq_fast a b p (m_viable st ! v) = Inr (ok, vs1) \<and>
           m_viable st' ! v = (if ok then vs1 else snd (intersect_eq_budget a b p 10 vs1))"
    using f by blast
qed

lemma eq_fast_False: "intersect_eq_fast a b p vs = Inr (False, vs') \<Longrightarrow> vs' = vs"
  by (auto simp: intersect_eq_fast_def split: if_splits option.splits)

lemma keep_viable_eq:
  assumes wf: "well_formed (m_viable st ! v)"
    and r: "viable_intersect_eq a v b p st = Inr st'"
    and x: "admissible (m_viable st ! v) x"
    and h: "eq_holds (m_num_bits (m_viable st ! v)) a b p x"
  shows "admissible (m_viable st' ! v) x"
proof -
  obtain ok vs1 where f: "intersect_eq_fast a b p (m_viable st ! v) = Inr (ok, vs1)"
    and m: "m_viable st' ! v = (if ok then vs1 else snd (intersect_eq_budget a b p 10 vs1))"
    using viable_eq_result(2) [OF r] by blast
  show ?thesis
  proof (cases ok)
    case True
    then show ?thesis using keep_eq_fast(1) [OF wf _ x h, of vs1] f m by simp
  next
    case False
    then have e: "vs1 = m_viable st ! v" using f eq_fast_False [of a b p "m_viable st ! v" vs1] by simp
    show ?thesis using False m narrow_keeps(3) [OF wf x, of "eq_holds (m_num_bits (m_viable st ! v)) a b p" 10] h
      by (simp add: e intersect_eq_budget_def)
  qed
qed

lemma exact_viable_eq_pos:
  assumes r: "viable_intersect_eq a v b True st = Inr st'" and o: "odd a"
    and x: "admissible (m_viable st' ! v) x"
  shows "eq_holds (m_num_bits (m_viable st ! v)) a b True x"
proof -
  let ?vs = "m_viable st ! v"
  obtain ok vs1 where f: "intersect_eq_fast a b True ?vs = Inr (ok, vs1)"
    and m: "m_viable st' ! v = (if ok then vs1 else snd (intersect_eq_budget a b True 10 vs1))"
    using viable_eq_result(2) [OF r] by blast
  obtain ai where ai: "(a * ai) mod p2 ?vs = 1 mod p2 ?vs"
    "intersect_eq_fast a b True ?vs = Inr (True, intersect_eq_pt ((ai * - b) mod p2 ?vs) True ?vs)"
    using eq_fast_odd [OF o, of ?vs b True] by blast
  have e: "m_viable st' ! v = intersect_eq_pt ((ai * - b) mod p2 ?vs) True ?vs"
    using f m ai(2) by simp
  have "admissible ?vs x \<and> x = (ai * - b) mod p2 ?vs"
    by (rule iffD1 [OF pt_pos [OF pt_in_range] x [unfolded e]])
  then have "in_range ?vs x" "x = (ai * - b) mod p2 ?vs"
    using adm_in_range [of ?vs x] by blast+
  then show ?thesis using eq_holds_pt [OF ai(1), of x b True] by blast
qed

lemma viable_ule_result:
  assumes "viable_intersect_ule v a b c d p st = Inr st'"
  shows "v < length (m_viable st)"
    and "m_viable st' ! v =
          (case intersect_ule_fast a b c d p (m_viable st ! v) of
             (True, vs1) \<Rightarrow> vs1
           | (False, vs1) \<Rightarrow>
              (case intersect_ule_budget a b c d p 10 vs1 of
                 (Suc k, vs2) \<Rightarrow> vs2
               | (0, vs2) \<Rightarrow> ule_fallback (s_size st v) a b c d p
                                (cache_lookup (s_size st v) a b c d (m_ineq_cache st)) vs2))"
proof -
  show v: "v < length (m_viable st)"
    using assms by (auto simp: viable_intersect_ule_def push_viable_def split: if_splits)
  show "m_viable st' ! v =
          (case intersect_ule_fast a b c d p (m_viable st ! v) of
             (True, vs1) \<Rightarrow> vs1
           | (False, vs1) \<Rightarrow>
              (case intersect_ule_budget a b c d p 10 vs1 of
                 (Suc k, vs2) \<Rightarrow> vs2
               | (0, vs2) \<Rightarrow> ule_fallback (s_size st v) a b c d p
                                (cache_lookup (s_size st v) a b c d (m_ineq_cache st)) vs2))"
    using assms v
    by (auto simp: viable_intersect_ule_def push_viable_def conflict_if_empty_def set_conflict_def Let_def
             split: prod.splits bool.splits nat.splits if_splits)
qed

lemma keep_viable_ule:
  assumes wf: "well_formed (m_viable st ! v)"
    and r: "viable_intersect_ule v a b c d p st = Inr st'"
    and b: "in_range (m_viable st ! v) b" and d: "in_range (m_viable st ! v) d"
    and sz: "s_size st v = m_num_bits (m_viable st ! v)"
    and ck: "cache_ok (m_ineq_cache st)"
    and x: "admissible (m_viable st ! v) x"
    and h: "ule_holds (m_num_bits (m_viable st ! v)) a b c d p x"
  shows "admissible (m_viable st' ! v) x"
proof -
  let ?vs = "m_viable st ! v"
  let ?w = "m_num_bits ?vs"
  note m = viable_ule_result(2) [OF r]
  obtain ok vs1 where f: "intersect_ule_fast a b c d p ?vs = (ok, vs1)"
    by (cases "intersect_ule_fast a b c d p ?vs")
  show ?thesis
  proof (cases ok)
    case True
    then show ?thesis using keep_ule_fast [OF wf b d _ x h, of vs1] f m by simp
  next
    case False
    then have e: "vs1 = ?vs" using f ule_fast_False [of a b c d p ?vs vs1] by simp
    obtain k vs2 where n: "intersect_ule_budget a b c d p 10 ?vs = (k, vs2)"
      by (cases "intersect_ule_budget a b c d p 10 ?vs")
    have vs2: "vs2 = snd (narrow (ule_holds ?w a b c d p) 10 ?vs)"
      using n by (simp add: intersect_ule_budget_def)
    have w2: "well_formed vs2" and b2: "m_num_bits vs2 = ?w" and x2: "admissible vs2 x"
      unfolding vs2 using narrow_keeps(1,2) [OF wf, of "ule_holds ?w a b c d p" 10]
        narrow_keeps(3) [OF wf x, of "ule_holds ?w a b c d p" 10] h by simp_all
    show ?thesis
    proof (cases k)
      case (Suc k')
      then show ?thesis using m f False e n x2 by simp
    next
      case 0
      obtain other where o: "List.find (same_key ?w a b c d) (cache_lookup ?w a b c d (m_ineq_cache st)) = Some other"
        "repr other = ule_holds ?w a b c d True"
        using cache_lookup_entry [OF ck, of ?w a b c d] by blast
      have "admissible (ule_fallback (m_num_bits vs2) a b c d p (cache_lookup ?w a b c d (m_ineq_cache st)) vs2) x"
        using keep_ule_fallback [OF w2 x2, of a b c d p _ other] h o unfolding b2 by simp
      then show ?thesis using m f False e n 0 sz b2 by simp
    qed
  qed
qed

lemma set_lo_exact:
  assumes "well_formed vs" "in_range vs b"
  shows "admissible (set_lo b vs) x \<longleftrightarrow> admissible vs x \<and> b \<le> x"
proof (cases "emp vs")
  case True
  then have "emp (set_lo b vs)" by (simp add: set_lo_def vs_defs)
  then show ?thesis using True by (simp add: admissible_def contains_def is_empty_def)
next
  case False
  have w: "well_formed (set_lo b vs)" using assms by (rule wf_set_lo)
  have f: "0 \<le> lo vs" "lo vs < p2 vs" "0 \<le> hi vs" "hi vs < p2 vs" "hi vs = 0 \<or> lo vs < hi vs"
    using assms(1) False by (auto simp: well_formed_def)
  show ?thesis
    unfolding adm_iff [OF w] adm_iff [OF assms(1)] using False f assms(2)
    by (auto simp: set_lo_def vs_defs)
qed

lemma set_hi_exact:
  assumes "well_formed vs" "in_range vs d"
    and "d < hi vs \<or> is_free vs \<or> is_max vs d"
  shows "admissible (set_hi d vs) x \<longleftrightarrow> admissible vs x \<and> x \<le> d"
proof (cases "emp vs")
  case True
  then have "emp (set_hi d vs)" by (simp add: set_hi_def vs_defs)
  then show ?thesis using True by (simp add: admissible_def contains_def is_empty_def)
next
  case False
  have w: "well_formed (set_hi d vs)" using assms(1,2) by (rule wf_set_hi)
  have f: "0 \<le> lo vs" "lo vs < p2 vs" "0 \<le> hi vs" "hi vs < p2 vs" "hi vs = 0 \<or> lo vs < hi vs"
    using assms(1) False by (auto simp: well_formed_def)
  show ?thesis
    unfolding adm_iff [OF w] adm_iff [OF assms(1)] using False f assms(2,3)
    by (auto simp: set_hi_def vs_defs)
qed

lemma pt_neg_exact:
  assumes "well_formed vs" "in_range vs a"
    and "admissible vs a \<longrightarrow> a = lo vs \<or> a + 1 = upper_end vs"
  shows "admissible (intersect_eq_pt a False vs) x \<longleftrightarrow> admissible vs x \<and> x \<noteq> a"
proof (cases "lo vs < a \<and> a + 1 < upper_end vs")
  case True
  then have "\<not> admissible vs a" using assms(3) by auto
  then show ?thesis using pt_neg [OF assms(1,2), of x] True by auto
next
  case False
  then show ?thesis using pt_neg [OF assms(1,2), of x] by auto
qed

lemma ule_fast_closed:
  assumes "(odd a \<and> b = 0 \<and> c = 0 \<and> d = 0) \<or> (a = 1 \<and> b = 0 \<and> c = 0) \<or> (a = 0 \<and> c = 1 \<and> d = 0)"
  shows "fst (intersect_ule_fast a b c d p vs)"
  using assms by (elim disjE conjE) (simp_all add: intersect_ule_fast_def)

lemma sound_ule_fast:
  assumes wf: "well_formed vs" and b: "in_range vs b" and d: "in_range vs d"
    and s: "(odd a \<and> b = 0 \<and> c = 0 \<and> d = 0)
          \<or> (a = 1 \<and> b = 0 \<and> c = 0 \<and> (\<not> p \<or> d < hi vs \<or> is_free vs \<or> is_max vs d))
          \<or> (a = 0 \<and> c = 1 \<and> d = 0 \<and> (p \<or> b = 0 \<or> b - 1 < hi vs \<or> is_free vs))"
    and x: "admissible (snd (intersect_ule_fast a b c d p vs)) x"
  shows "admissible vs x \<and> ule_holds (m_num_bits vs) a b c d p x"
proof -
  have xr: "in_range vs x"
  proof -
    have "m_num_bits (snd (intersect_ule_fast a b c d p vs)) = m_num_bits vs"
      by (simp add: intersect_ule_fast_def set_empty_def)
    then show ?thesis using adm_in_range [OF x] by (simp add: in_range_def p2_def)
  qed
  show ?thesis
  proof (cases "odd a \<and> b = 0 \<and> c = 0 \<and> d = 0")
    case s1: True
    then have e: "snd (intersect_ule_fast a b c d p vs) = intersect_eq_pt 0 p vs"
      by (simp add: intersect_ule_fast_def)
    have "admissible vs x \<and> (p \<longleftrightarrow> x = 0)"
    proof (cases p)
      case True
      then have "admissible (intersect_eq_pt 0 True vs) x" using x unfolding e by simp
      then show ?thesis using True pt_pos [OF zero_in_range, of vs x] by auto
    next
      case False
      have "admissible vs 0 \<longrightarrow> 0 = lo vs \<or> 0 + 1 = upper_end vs"
        using adm_iff [OF wf, of 0] wf by (auto simp: well_formed_def)
      moreover have "admissible (intersect_eq_pt 0 False vs) x" using x False unfolding e by simp
      ultimately show ?thesis using False pt_neg_exact [OF wf zero_in_range, of x] by auto
    qed
    then show ?thesis using ule_shape1 [of a vs x p] s1 xr by simp
  next
    case n1: False
    show ?thesis
    proof (cases "a = 1 \<and> b = 0 \<and> c = 0")
      case s2: True
      have g: "\<not> p \<or> d < hi vs \<or> is_free vs \<or> is_max vs d"
        using s n1 s2 by (elim disjE conjE) simp_all
      note sh = ule_shape2 [OF xr d, of p]
      show ?thesis
      proof (cases p)
        case True
        then have e: "snd (intersect_ule_fast a b c d p vs) = set_hi d vs"
          using n1 s2 by (simp add: intersect_ule_fast_def)
        have g': "d < hi vs \<or> is_free vs \<or> is_max vs d" using g True by blast
        show ?thesis using x set_hi_exact [OF wf d g', of x] s2 True sh unfolding e by simp
      next
        case False
        show ?thesis
        proof (cases "is_max vs d")
          case m: True
          then have "snd (intersect_ule_fast a b c d p vs) = set_empty vs"
            using n1 s2 False by (simp add: intersect_ule_fast_def)
          then show ?thesis using x by (simp add: admissible_def contains_def vs_defs)
        next
          case m: False
          then have e: "snd (intersect_ule_fast a b c d p vs) = set_lo (d + 1) vs"
            using n1 s2 False by (simp add: intersect_ule_fast_def)
          have r: "in_range vs (d + 1)" using d m by (auto simp: is_max_def in_range_def p2_def)
          show ?thesis using x set_lo_exact [OF wf r, of x] s2 False sh unfolding e by auto
        qed
      qed
    next
      case n2: False
      have s3: "a = 0 \<and> c = 1 \<and> d = 0" and g: "p \<or> b = 0 \<or> b - 1 < hi vs \<or> is_free vs"
        using s n1 n2 by blast+
      note sh = ule_shape3 [OF xr b, of p]
      show ?thesis
      proof (cases p)
        case True
        then have e: "snd (intersect_ule_fast a b c d p vs) = set_lo b vs"
          using n1 n2 s3 by (simp add: intersect_ule_fast_def)
        show ?thesis using x set_lo_exact [OF wf b, of x] s3 True sh unfolding e by simp
      next
        case False
        show ?thesis
        proof (cases "b = 0")
          case z: True
          then have "snd (intersect_ule_fast a b c d p vs) = set_empty vs"
            using n1 n2 s3 False by (simp add: intersect_ule_fast_def)
          then show ?thesis using x by (simp add: admissible_def contains_def vs_defs)
        next
          case z: False
          then have e: "snd (intersect_ule_fast a b c d p vs) = set_hi (b - 1) vs"
            using n1 n2 s3 False by (simp add: intersect_ule_fast_def)
          have r: "in_range vs (b - 1)" using b z by (auto simp: in_range_def)
          have g': "b - 1 < hi vs \<or> is_free vs \<or> is_max vs (b - 1)" using g False z by blast
          show ?thesis using x set_hi_exact [OF wf r g', of x] s3 False sh unfolding e by auto
        qed
      qed
    qed
  qed
qed

lemma sound_viable_ule:
  assumes wf: "well_formed (m_viable st ! v)"
    and r: "viable_intersect_ule v a b c d p st = Inr st'"
    and b: "in_range (m_viable st ! v) b" and d: "in_range (m_viable st ! v) d"
    and s: "(odd a \<and> b = 0 \<and> c = 0 \<and> d = 0)
          \<or> (a = 1 \<and> b = 0 \<and> c = 0 \<and>
               (\<not> p \<or> d < hi (m_viable st ! v) \<or> is_free (m_viable st ! v) \<or> is_max (m_viable st ! v) d))
          \<or> (a = 0 \<and> c = 1 \<and> d = 0 \<and>
               (p \<or> b = 0 \<or> b - 1 < hi (m_viable st ! v) \<or> is_free (m_viable st ! v)))"
    and x: "admissible (m_viable st' ! v) x"
  shows "admissible (m_viable st ! v) x \<and> ule_holds (m_num_bits (m_viable st ! v)) a b c d p x"
proof -
  let ?vs = "m_viable st ! v"
  obtain ok vs1 where f: "intersect_ule_fast a b c d p ?vs = (ok, vs1)"
    by (cases "intersect_ule_fast a b c d p ?vs")
  have "(odd a \<and> b = 0 \<and> c = 0 \<and> d = 0) \<or> (a = 1 \<and> b = 0 \<and> c = 0) \<or> (a = 0 \<and> c = 1 \<and> d = 0)"
    using s by blast
  then have "ok" using ule_fast_closed [of a b c d p ?vs] f by simp
  then have "m_viable st' ! v = snd (intersect_ule_fast a b c d p ?vs)"
    using viable_ule_result(2) [OF r] f by simp
  then show ?thesis using sound_ule_fast [OF wf b d s, of x] x by simp
qed

lemma sound_viable_eq_neg:
  assumes wf: "well_formed (m_viable st ! v)"
    and r: "viable_intersect_eq a v b False st = Inr st'" and o: "odd a"
    and e: "\<forall>y. admissible (m_viable st ! v) y \<and> \<not> eq_holds (m_num_bits (m_viable st ! v)) a b False y
               \<longrightarrow> y = lo (m_viable st ! v) \<or> y + 1 = upper_end (m_viable st ! v)"
    and x: "admissible (m_viable st' ! v) x"
  shows "eq_holds (m_num_bits (m_viable st ! v)) a b False x"
proof -
  let ?vs = "m_viable st ! v"
  obtain ok vs1 where f: "intersect_eq_fast a b False ?vs = Inr (ok, vs1)"
    and m: "m_viable st' ! v = (if ok then vs1 else snd (intersect_eq_budget a b False 10 vs1))"
    using viable_eq_result(2) [OF r] by blast
  obtain ai where ai: "(a * ai) mod p2 ?vs = 1 mod p2 ?vs"
    "intersect_eq_fast a b False ?vs = Inr (True, intersect_eq_pt ((ai * - b) mod p2 ?vs) False ?vs)"
    using eq_fast_odd [OF o, of ?vs b False] by blast
  let ?pt = "(ai * - b) mod p2 ?vs"
  have q: "m_viable st' ! v = intersect_eq_pt ?pt False ?vs"
    using f m ai(2) by simp
  have "\<not> eq_holds (m_num_bits ?vs) a b False ?pt"
    using eq_holds_pt [OF ai(1) pt_in_range [of ?vs "ai * - b"], of b False] by simp
  then have "admissible ?vs ?pt \<longrightarrow> ?pt = lo ?vs \<or> ?pt + 1 = upper_end ?vs"
    using e by blast
  then have "admissible ?vs x \<and> x \<noteq> ?pt"
    using pt_neg_exact [OF wf pt_in_range [of ?vs "ai * - b"], of x] x unfolding q by blast
  then show ?thesis using eq_holds_pt [OF ai(1), of x b False] adm_in_range [of ?vs x] by blast
qed

lemma sub_viable_eq_odd:
  assumes wf: "well_formed (m_viable st ! v)"
    and r: "viable_intersect_eq a v b p st = Inr st'" and o: "odd a"
    and x: "admissible (m_viable st' ! v) x"
  shows "admissible (m_viable st ! v) x"
proof -
  let ?vs = "m_viable st ! v"
  obtain ok vs1 where f: "intersect_eq_fast a b p ?vs = Inr (ok, vs1)"
    and m: "m_viable st' ! v = (if ok then vs1 else snd (intersect_eq_budget a b p 10 vs1))"
    using viable_eq_result(2) [OF r] by blast
  obtain ai where ai: "intersect_eq_fast a b p ?vs = Inr (True, intersect_eq_pt ((ai * - b) mod p2 ?vs) p ?vs)"
    using eq_fast_odd [OF o, of ?vs b p] by blast
  have q: "m_viable st' ! v = intersect_eq_pt ((ai * - b) mod p2 ?vs) p ?vs"
    using f m ai by simp
  show ?thesis
  proof (cases p)
    case True
    then have "admissible (intersect_eq_pt ((ai * - b) mod p2 ?vs) True ?vs) x"
      using x unfolding q by simp
    then show ?thesis
      using pt_pos [OF pt_in_range [of ?vs "ai * - b"], of x] by blast
  next
    case False
    then have "admissible (intersect_eq_pt ((ai * - b) mod p2 ?vs) False ?vs) x"
      using x unfolding q by simp
    then show ?thesis
      using pt_neg [OF wf pt_in_range [of ?vs "ai * - b"], of x] by (auto split: if_splits)
  qed
qed

text \<open>
  Claim C2, as amended. After \<^verbatim>\<open>viable::intersect_eq\<close> or \<^verbatim>\<open>viable::intersect_ule\<close> on a
  well-formed domain (for the ordering: with constants \<open>b\<close>, \<open>d\<close> inside \<open>[0, 2^width)\<close>,
  the solver's width for the variable equal to the set's, and a cache whose diagrams
  denote their keys), no value of the domain that satisfies the asserted constraint under
  modular arithmetic for that polarity has been excluded. Every remaining value was in
  the domain before and satisfies the constraint

    \<^item> for an equality with odd \<open>a\<close> asserted positively, and for one asserted negatively
      when no violating value of the domain lies strictly inside the stored interval;

    \<^item> for the orderings in closed form: \<open>a*v \<le> 0\<close> with odd \<open>a\<close> in both polarities,
      \<open>v \<ge> b\<close> asserted, \<open>v > d\<close> (that is \<open>v \<le> d\<close> negated), and for the two that lower the
      upper end, \<open>v \<le> d\<close> asserted and \<open>v < b\<close> (that is \<open>v \<ge> b\<close> negated), when the new
      bound lies below the stored \<open>hi\<close>, the set is free, or the bound is the largest value.

  Only for an equality with even \<open>a\<close>, a disequality whose excluded value lies strictly
  inside the interval, and an ordering outside the closed forms may the interval
  over-approximate the solutions. The two orderings that lower the upper end, outside the
  case named above, go through the faulty branch of \<^verbatim>\<open>set_hi\<close> (claim C3); nothing is
  granted to them here.
\<close>

theorem narrowing_keeps_solutions:
  assumes "well_formed (m_viable st ! v)"
  shows "(viable_intersect_eq a v b p st = Inr st1 \<longrightarrow>
            (\<forall>x. admissible (m_viable st ! v) x \<and> eq_holds (m_num_bits (m_viable st ! v)) a b p x
                   \<longrightarrow> admissible (m_viable st1 ! v) x) \<and>
            (odd a \<and> (p \<or> (\<forall>y. admissible (m_viable st ! v) y
                                  \<and> \<not> eq_holds (m_num_bits (m_viable st ! v)) a b p y
                                \<longrightarrow> y = lo (m_viable st ! v) \<or> y + 1 = upper_end (m_viable st ! v))) \<longrightarrow>
               (\<forall>x. admissible (m_viable st1 ! v) x \<longrightarrow>
                  admissible (m_viable st ! v) x \<and> eq_holds (m_num_bits (m_viable st ! v)) a b p x)))
       \<and> (viable_intersect_ule v a' b' c' d' p' st = Inr st2 \<and>
            in_range (m_viable st ! v) b' \<and> in_range (m_viable st ! v) d' \<and>
            s_size st v = m_num_bits (m_viable st ! v) \<and> cache_ok (m_ineq_cache st) \<longrightarrow>
            (\<forall>x. admissible (m_viable st ! v) x \<and> ule_holds (m_num_bits (m_viable st ! v)) a' b' c' d' p' x
                   \<longrightarrow> admissible (m_viable st2 ! v) x) \<and>
            ((odd a' \<and> b' = 0 \<and> c' = 0 \<and> d' = 0)
             \<or> (a' = 1 \<and> b' = 0 \<and> c' = 0 \<and>
                  (\<not> p' \<or> d' < hi (m_viable st ! v) \<or> is_free (m_viable st ! v)
                   \<or> is_max (m_viable st ! v) d'))
             \<or> (a' = 0 \<and> c' = 1 \<and> d' = 0 \<and>
                  (p' \<or> b' = 0 \<or> b' - 1 < hi (m_viable st ! v) \<or> is_free (m_viable st ! v))) \<longrightarrow>
               (\<forall>x. admissible (m_viable st2 ! v) x \<longrightarrow>
                  admissible (m_viable st ! v) x
                  \<and> ule_holds (m_num_bits (m_viable st ! v)) a' b' c' d' p' x)))"
proof (intro conjI impI allI)
  fix x
  assume "viable_intersect_eq a v b p st = Inr st1"
    "admissible (m_viable st ! v) x \<and> eq_holds (m_num_bits (m_viable st ! v)) a b p x"
  then show "admissible (m_viable st1 ! v) x"
    using keep_viable_eq [OF assms] by blast
next
  fix x
  assume r: "viable_intersect_eq a v b p st = Inr st1"
    and c: "odd a \<and> (p \<or> (\<forall>y. admissible (m_viable st ! v) y
                                  \<and> \<not> eq_holds (m_num_bits (m_viable st ! v)) a b p y
                                \<longrightarrow> y = lo (m_viable st ! v) \<or> y + 1 = upper_end (m_viable st ! v)))"
    and x: "admissible (m_viable st1 ! v) x"
  have o: "odd a" using c by simp
  show "admissible (m_viable st ! v) x"
    by (rule sub_viable_eq_odd [OF assms r o x])
  show "eq_holds (m_num_bits (m_viable st ! v)) a b p x"
  proof (cases p)
    case True
    have r': "viable_intersect_eq a v b True st = Inr st1" using r True by simp
    show ?thesis using exact_viable_eq_pos [OF r' o x] True by simp
  next
    case False
    have r': "viable_intersect_eq a v b False st = Inr st1" using r False by simp
    have e: "\<forall>y. admissible (m_viable st ! v) y
                  \<and> \<not> eq_holds (m_num_bits (m_viable st ! v)) a b False y
                \<longrightarrow> y = lo (m_viable st ! v) \<or> y + 1 = upper_end (m_viable st ! v)"
      using c False by simp
    show ?thesis using sound_viable_eq_neg [OF assms r' o e x] False by simp
  qed
next
  fix x
  assume "viable_intersect_ule v a' b' c' d' p' st = Inr st2 \<and>
            in_range (m_viable st ! v) b' \<and> in_range (m_viable st ! v) d' \<and>
            s_size st v = m_num_bits (m_viable st ! v) \<and> cache_ok (m_ineq_cache st)"
    "admissible (m_viable st ! v) x \<and> ule_holds (m_num_bits (m_viable st ! v)) a' b' c' d' p' x"
  then show "admissible (m_viable st2 ! v) x"
    using keep_viable_ule [OF assms, of a' b' c' d' p' st2 x] by blast
next
  fix x
  assume h: "viable_intersect_ule v a' b' c' d' p' st = Inr st2 \<and>
            in_range (m_viable st ! v) b' \<and> in_range (m_viable st ! v) d' \<and>
            s_size st v = m_num_bits (m_viable st ! v) \<and> cache_ok (m_ineq_cache st)"
    and s: "(odd a' \<and> b' = 0 \<and> c' = 0 \<and> d' = 0)
             \<or> (a' = 1 \<and> b' = 0 \<and> c' = 0 \<and>
                  (\<not> p' \<or> d' < hi (m_viable st ! v) \<or> is_free (m_viable st ! v)
                   \<or> is_max (m_viable st ! v) d'))
             \<or> (a' = 0 \<and> c' = 1 \<and> d' = 0 \<and>
                  (p' \<or> b' = 0 \<or> b' - 1 < hi (m_viable st ! v) \<or> is_free (m_viable st ! v)))"
    and x: "admissible (m_viable st2 ! v) x"
  have r: "viable_intersect_ule v a' b' c' d' p' st = Inr st2"
    and b: "in_range (m_viable st ! v) b'" and d: "in_range (m_viable st ! v) d'"
    using h by simp_all
  note t = sound_viable_ule [OF assms r b d s x]
  show "admissible (m_viable st ! v) x" using t by simp
  show "ule_holds (m_num_bits (m_viable st ! v)) a' b' c' d' p' x" using t by simp
qed

text \<open>
  The hypotheses of the theorem at width 8 on a free domain: \<open>3*v + 1 = 0\<close> leaves exactly
  its solution 85; \<open>v \<noteq> 0\<close> excludes the low end and leaves \<open>[1, 2^8)\<close>; \<open>100 \<le> 2*v\<close> uses up
  the budget, takes the diagram and keeps the solution 60; \<open>v \<ge> 100\<close> leaves \<open>[100, 2^8)\<close>,
  where 200 satisfies it; \<open>v \<le> 10\<close> on the free set leaves \<open>[0, 11)\<close>, where 5 satisfies it.
\<close>

theorem narrowing_keeps_solutions_witness:
  "well_formed (m_viable (init_viable [8]) ! 0)
   \<and> viable_intersect_eq 3 0 1 True (init_viable [8]) =
       Inr ((init_viable [8])\<lparr>m_viable := [\<lparr>emp = False, lo = 85, hi = 86, m_num_bits = 8\<rparr>],
              m_viable_trail := [(0, free_set 8)], s_m_trail := [viable_i]\<rparr>)
   \<and> odd (3::int)
   \<and> admissible (m_viable (init_viable [8]) ! 0) 85 \<and> eq_holds 8 3 1 True 85
   \<and> admissible \<lparr>emp = False, lo = 85, hi = 86, m_num_bits = 8\<rparr> 85
   \<and> viable_intersect_eq 1 0 0 False (init_viable [8]) =
       Inr ((init_viable [8])\<lparr>m_viable := [\<lparr>emp = False, lo = 1, hi = 0, m_num_bits = 8\<rparr>],
              m_viable_trail := [(0, free_set 8)], s_m_trail := [viable_i]\<rparr>)
   \<and> {y. admissible (m_viable (init_viable [8]) ! 0) y \<and> \<not> eq_holds 8 1 0 False y}
       = {lo (m_viable (init_viable [8]) ! 0)}
   \<and> admissible \<lparr>emp = False, lo = 1, hi = 0, m_num_bits = 8\<rparr> 7 \<and> eq_holds 8 1 0 False 7
   \<and> viable_intersect_ule 0 0 100 2 0 True (init_viable [8]) =
       Inr ((init_viable [8])\<lparr>m_viable := [\<lparr>emp = False, lo = 50, hi = 0, m_num_bits = 8\<rparr>],
              m_viable_trail := [(0, free_set 8)],
              m_ineq_cache := [\<lparr>m_bit_width = 8, m_a = 0, m_b = 100, m_c = 2, m_d = 0,
                                repr = ule_holds 8 0 100 2 0 True, m_activity = 1\<rparr>],
              s_m_trail := [viable_i]\<rparr>)
   \<and> in_range (m_viable (init_viable [8]) ! 0) 100 \<and> in_range (m_viable (init_viable [8]) ! 0) 0
   \<and> s_size (init_viable [8]) 0 = m_num_bits (m_viable (init_viable [8]) ! 0)
   \<and> cache_ok (m_ineq_cache (init_viable [8]))
   \<and> admissible (m_viable (init_viable [8]) ! 0) 60 \<and> ule_holds 8 0 100 2 0 True 60
   \<and> admissible \<lparr>emp = False, lo = 50, hi = 0, m_num_bits = 8\<rparr> 60
   \<and> viable_intersect_ule 0 0 100 1 0 True (init_viable [8]) =
       Inr ((init_viable [8])\<lparr>m_viable := [\<lparr>emp = False, lo = 100, hi = 0, m_num_bits = 8\<rparr>],
              m_viable_trail := [(0, free_set 8)], s_m_trail := [viable_i]\<rparr>)
   \<and> admissible \<lparr>emp = False, lo = 100, hi = 0, m_num_bits = 8\<rparr> 200
   \<and> ule_holds 8 0 100 1 0 True 200
   \<and> viable_intersect_ule 0 1 0 0 10 True (init_viable [8]) =
       Inr ((init_viable [8])\<lparr>m_viable := [\<lparr>emp = False, lo = 0, hi = 11, m_num_bits = 8\<rparr>],
              m_viable_trail := [(0, free_set 8)], s_m_trail := [viable_i]\<rparr>)
   \<and> in_range (m_viable (init_viable [8]) ! 0) 10 \<and> is_free (m_viable (init_viable [8]) ! 0)
   \<and> admissible \<lparr>emp = False, lo = 0, hi = 11, m_num_bits = 8\<rparr> 5
   \<and> ule_holds 8 1 0 0 10 True 5"
proof -
  let ?st = "init_viable [8]"
  let ?st1 = "?st\<lparr>m_viable := [\<lparr>emp = False, lo = 85, hi = 86, m_num_bits = 8\<rparr>],
              m_viable_trail := [(0, free_set 8)], s_m_trail := [viable_i]\<rparr>"
  let ?st2 = "?st\<lparr>m_viable := [\<lparr>emp = False, lo = 50, hi = 0, m_num_bits = 8\<rparr>],
              m_viable_trail := [(0, free_set 8)],
              m_ineq_cache := [\<lparr>m_bit_width = 8, m_a = 0, m_b = 100, m_c = 2, m_d = 0,
                                repr = ule_holds 8 0 100 2 0 True, m_activity = 1\<rparr>],
              s_m_trail := [viable_i]\<rparr>"
  let ?st3 = "?st\<lparr>m_viable := [\<lparr>emp = False, lo = 1, hi = 0, m_num_bits = 8\<rparr>],
              m_viable_trail := [(0, free_set 8)], s_m_trail := [viable_i]\<rparr>"
  let ?st4 = "?st\<lparr>m_viable := [\<lparr>emp = False, lo = 100, hi = 0, m_num_bits = 8\<rparr>],
              m_viable_trail := [(0, free_set 8)], s_m_trail := [viable_i]\<rparr>"
  let ?st5 = "?st\<lparr>m_viable := [\<lparr>emp = False, lo = 0, hi = 11, m_num_bits = 8\<rparr>],
              m_viable_trail := [(0, free_set 8)], s_m_trail := [viable_i]\<rparr>"
  have v: "m_viable ?st ! 0 = free_set 8" by (simp add: init_viable_def)
  have wf: "well_formed (m_viable ?st ! 0)" unfolding v by code_simp
  have f1: "intersect_eq_fast 3 1 True (free_set 8)
              = Inr (True, \<lparr>emp = False, lo = 85, hi = 86, m_num_bits = 8\<rparr>)" by code_simp
  have e1: "viable_intersect_eq 3 0 1 True ?st = Inr ?st1"
    by (simp add: viable_intersect_eq_def push_viable_def init_viable_def f1
          conflict_if_empty_def is_empty_def Let_def)
  have f2: "intersect_ule_fast 0 100 2 0 True (free_set 8) = (False, free_set 8)"
    by (simp add: intersect_ule_fast_def)
  have f3: "intersect_ule_budget 0 100 2 0 True 10 (free_set 8)
              = (0, \<lparr>emp = False, lo = 10, hi = 0, m_num_bits = 8\<rparr>)" by code_simp
  have f4: "ule_fallback 8 0 100 2 0 True
              [\<lparr>m_bit_width = 8, m_a = 0, m_b = 100, m_c = 2, m_d = 0,
                repr = ule_holds 8 0 100 2 0 True, m_activity = 0\<rparr>]
              \<lparr>emp = False, lo = 10, hi = 0, m_num_bits = 8\<rparr>
            = \<lparr>emp = False, lo = 50, hi = 0, m_num_bits = 8\<rparr>" by code_simp
  have e2: "viable_intersect_ule 0 0 100 2 0 True ?st = Inr ?st2"
    by (simp add: viable_intersect_ule_def push_viable_def init_viable_def f2 f3 f4
          cache_lookup_def same_key_def conflict_if_empty_def is_empty_def Let_def)
  have f5: "intersect_eq_fast 1 0 False (free_set 8)
              = Inr (True, \<lparr>emp = False, lo = 1, hi = 0, m_num_bits = 8\<rparr>)" by code_simp
  have e3: "viable_intersect_eq 1 0 0 False ?st = Inr ?st3"
    by (simp add: viable_intersect_eq_def push_viable_def init_viable_def f5
          conflict_if_empty_def is_empty_def Let_def)
  have f6: "intersect_ule_fast 0 100 1 0 True (free_set 8)
              = (True, \<lparr>emp = False, lo = 100, hi = 0, m_num_bits = 8\<rparr>)" by code_simp
  have e4: "viable_intersect_ule 0 0 100 1 0 True ?st = Inr ?st4"
    by (simp add: viable_intersect_ule_def push_viable_def init_viable_def f6
          conflict_if_empty_def is_empty_def Let_def)
  have f7: "intersect_ule_fast 1 0 0 10 True (free_set 8)
              = (True, \<lparr>emp = False, lo = 0, hi = 11, m_num_bits = 8\<rparr>)" by code_simp
  have e5: "viable_intersect_ule 0 1 0 0 10 True ?st = Inr ?st5"
    by (simp add: viable_intersect_ule_def push_viable_def init_viable_def f7
          conflict_if_empty_def is_empty_def Let_def)
  have k: "in_range (free_set 8) 10" "is_free (free_set 8)"
    "admissible \<lparr>emp = False, lo = 0, hi = 11, m_num_bits = 8\<rparr> 5"
    by code_simp+
  have h: "odd (3::int)" "admissible (free_set 8) 85" "eq_holds 8 3 1 True 85"
    "in_range (free_set 8) 100" "in_range (free_set 8) 0" "m_num_bits (free_set 8) = 8"
    "admissible (free_set 8) 60" "ule_holds 8 0 100 2 0 True 60"
    "admissible \<lparr>emp = False, lo = 1, hi = 0, m_num_bits = 8\<rparr> 7"
    "admissible \<lparr>emp = False, lo = 100, hi = 0, m_num_bits = 8\<rparr> 200"
    by code_simp+
  have y: "admissible (free_set 8) y \<and> \<not> eq_holds (m_num_bits (free_set 8)) 1 0 False y
             \<longleftrightarrow> y = lo (free_set 8)" for y
    by (auto simp: admissible_def contains_def free_set_def vs_defs eq_holds_def)
  have ys: "{y. admissible (free_set 8) y \<and> \<not> eq_holds 8 1 0 False y} = {lo (free_set 8)}"
    using y by (auto simp: free_set_def)
  have s: "s_size ?st 0 = m_num_bits (free_set 8)" "cache_ok (m_ineq_cache ?st)"
    by (simp_all add: init_viable_def cache_ok_def free_set_def)
  have m: "m_viable ?st1 ! 0 = \<lparr>emp = False, lo = 85, hi = 86, m_num_bits = 8\<rparr>"
    "m_viable ?st2 ! 0 = \<lparr>emp = False, lo = 50, hi = 0, m_num_bits = 8\<rparr>"
    "m_viable ?st3 ! 0 = \<lparr>emp = False, lo = 1, hi = 0, m_num_bits = 8\<rparr>"
    "m_viable ?st4 ! 0 = \<lparr>emp = False, lo = 100, hi = 0, m_num_bits = 8\<rparr>"
    "m_viable ?st5 ! 0 = \<lparr>emp = False, lo = 0, hi = 11, m_num_bits = 8\<rparr>" by simp_all
  note t = narrowing_keeps_solutions [OF wf, of 3 1 True ?st1 0 100 2 0 True ?st2, unfolded v m h(6)]
  have a1: "admissible \<lparr>emp = False, lo = 85, hi = 86, m_num_bits = 8\<rparr> 85"
    using mp [OF conjunct1 [OF t] e1] h(2,3) by blast
  have a2: "admissible \<lparr>emp = False, lo = 50, hi = 0, m_num_bits = 8\<rparr> 60"
    using mp [OF conjunct2 [OF t]] e2 h(4,5,7,8) s [unfolded h(6)] by blast
  note u = narrowing_keeps_solutions [OF wf, of 1 0 False ?st3 0 100 1 0 True ?st4, unfolded v m]
  have "odd (1::int) \<and> (False \<or> (\<forall>y. admissible (free_set 8) y
             \<and> \<not> eq_holds (m_num_bits (free_set 8)) 1 0 False y
             \<longrightarrow> y = lo (free_set 8) \<or> y + 1 = upper_end (free_set 8)))"
    using y by simp
  then have c1: "eq_holds 8 1 0 False 7"
    using mp [OF conjunct1 [OF u] e3] h(9) unfolding h(6) by blast
  have c2: "ule_holds 8 0 100 1 0 True 200"
    using mp [OF conjunct2 [OF u]] e4 h(4,5,10) s unfolding h(6) by blast
  note u' = narrowing_keeps_solutions [OF wf, of 1 0 False ?st3 1 0 0 10 True ?st5, unfolded v m]
  have c3: "ule_holds 8 1 0 0 10 True 5"
    using mp [OF conjunct2 [OF u']] e5 h(5) k s unfolding h(6) by blast
  have w0: "well_formed (free_set 8)" using wf unfolding v .
  have s0: "s_size ?st 0 = m_num_bits (free_set 8)" by (rule s(1))
  show ?thesis unfolding v
    by (intro conjI) (fact w0 e1 e2 e3 e4 e5 h k ys s0 s(2) a1 a2 c1 c2 c3)+
qed


text \<open>
  Claim C6, as amended. For odd \<open>a\<close>, \<^verbatim>\<open>viable_set::intersect_eq(a, b, is_positive)\<close> on a
  well-formed set returns true without any search: it is one call of the point
  intersection at \<open>a\<^sup>-\<^sup>1 * (-b) mod 2^w\<close>, the unique solution of \<open>a*x + b = 0\<close>, and
  \<^verbatim>\<open>viable::intersect_eq\<close> stores just that. With positive polarity the set is intersected
  with exactly that singleton. With negative polarity the point is removed when it is
  the lowest or the highest element of the interval (or not in it); a point strictly
  inside the interval stays, the set being left as it is.
\<close>

theorem odd_equality_closed_form:
  assumes "odd a" "well_formed vs"
  shows "\<exists>ai. mult_inverse a (m_num_bits vs) = Some ai \<and> (a * ai) mod p2 vs = 1 mod p2 vs \<and>
          intersect_eq_fast a b p vs = Inr (True, intersect_eq_pt ((ai * - b) mod p2 vs) p vs) \<and>
          (\<forall>x. in_range vs x \<longrightarrow> ((a * x + b) mod p2 vs = 0 \<longleftrightarrow> x = (ai * - b) mod p2 vs)) \<and>
          (\<forall>x. admissible (intersect_eq_pt ((ai * - b) mod p2 vs) p vs) x \<longleftrightarrow>
                 (if p then admissible vs x \<and> x = (ai * - b) mod p2 vs
                  else if lo vs < (ai * - b) mod p2 vs \<and> (ai * - b) mod p2 vs + 1 < upper_end vs
                       then admissible vs x
                       else admissible vs x \<and> x \<noteq> (ai * - b) mod p2 vs)) \<and>
          (v < length (m_viable st) \<and> m_viable st ! v = vs \<longrightarrow>
             (\<exists>st'. viable_intersect_eq a v b p st = Inr st' \<and>
                    m_viable st' = (m_viable st)[v := intersect_eq_pt ((ai * - b) mod p2 vs) p vs]))"
proof -
  obtain ai where ai: "mult_inverse a (m_num_bits vs) = Some ai" "(a * ai) mod p2 vs = 1 mod p2 vs"
    "intersect_eq_fast a b p vs = Inr (True, intersect_eq_pt ((ai * - b) mod p2 vs) p vs)"
    using eq_fast_odd [OF assms(1), of vs b p] by blast
  let ?pt = "(ai * - b) mod p2 vs"
  have u: "\<forall>x. in_range vs x \<longrightarrow> ((a * x + b) mod p2 vs = 0 \<longleftrightarrow> x = ?pt)"
    using eq_holds_pt [OF ai(2), where b = b and p = True] by (simp add: eq_holds_def p2_def)
  have r: "\<forall>x. admissible (intersect_eq_pt ?pt p vs) x \<longleftrightarrow>
                 (if p then admissible vs x \<and> x = ?pt
                  else if lo vs < ?pt \<and> ?pt + 1 < upper_end vs then admissible vs x
                       else admissible vs x \<and> x \<noteq> ?pt)"
  proof (cases p)
    case True
    then show ?thesis using pt_pos [OF pt_in_range [of vs "ai * - b"]] by simp
  next
    case False
    then show ?thesis using pt_neg [OF assms(2) pt_in_range [of vs "ai * - b"]] by simp
  qed
  have t: "v < length (m_viable st) \<and> m_viable st ! v = vs \<longrightarrow>
             (\<exists>st'. viable_intersect_eq a v b p st = Inr st' \<and>
                    m_viable st' = (m_viable st)[v := intersect_eq_pt ?pt p vs])"
    using ai(3)
    by (auto simp: viable_intersect_eq_def push_viable_def conflict_if_empty_def set_conflict_def)
  show ?thesis using ai u r t by blast
qed

text \<open>The hypotheses at \<open>3*v + 1 \<noteq> 0\<close> on the interval \<open>[85, 100)\<close> of width 8.\<close>

theorem odd_equality_closed_form_witness:
  "odd (3::int) \<and> well_formed \<lparr>emp = False, lo = 85, hi = 100, m_num_bits = 8\<rparr> \<and>
   (\<exists>ai. mult_inverse 3 8 = Some ai \<and>
      intersect_eq_fast 3 1 False \<lparr>emp = False, lo = 85, hi = 100, m_num_bits = 8\<rparr> =
        Inr (True, intersect_eq_pt ((ai * - 1) mod 2 ^ 8) False \<lparr>emp = False, lo = 85, hi = 100, m_num_bits = 8\<rparr>))"
proof -
  have h: "odd (3::int)" "well_formed \<lparr>emp = False, lo = 85, hi = 100, m_num_bits = 8\<rparr>"
    by code_simp+
  from odd_equality_closed_form [OF h, of 1 False 0 "init_viable [8]"]
  obtain ai where "mult_inverse 3 (m_num_bits \<lparr>emp = False, lo = 85, hi = 100, m_num_bits = 8\<rparr>) = Some ai"
    "intersect_eq_fast 3 1 False \<lparr>emp = False, lo = 85, hi = 100, m_num_bits = 8\<rparr> =
        Inr (True, intersect_eq_pt ((ai * - 1) mod p2 \<lparr>emp = False, lo = 85, hi = 100, m_num_bits = 8\<rparr>)
                     False \<lparr>emp = False, lo = 85, hi = 100, m_num_bits = 8\<rparr>)"
    by blast
  then show ?thesis using h by (auto simp: p2_def)
qed

text \<open>
  Claim C6 as stated fails for negative polarity: on the free set of width 4,
  \<open>v + 13 \<noteq> 0\<close> has the single excluded point 3, which is still admissible afterwards.
\<close>

theorem odd_equality_complement_counterexample:
  "odd (1::int) \<and> intersect_eq_fast 1 13 False (free_set 4) = Inr (True, free_set 4)
   \<and> (1 * 3 + 13) mod 2 ^ 4 = (0::int) \<and> admissible (free_set 4) 3"
  by code_simp

text \<open>
  Claim C10. When the closed form does not apply (\<open>a\<close> even for the equality, none of the
  three shapes for the ordering), the function returns false and the set it was given,
  unchanged; \<^verbatim>\<open>viable::intersect_eq\<close> then runs the bounded search, with budget 10, on the
  set as it was before the call.
\<close>

theorem fast_path_failure_keeps_domain:
  "(even a \<longrightarrow> intersect_eq_fast a b p vs = Inr (False, vs)) \<and>
   (\<not> (odd a' \<and> b' = 0 \<and> c' = 0 \<and> d' = 0) \<and> \<not> (a' = 1 \<and> b' = 0 \<and> c' = 0) \<and> \<not> (a' = 0 \<and> c' = 1 \<and> d' = 0)
      \<longrightarrow> intersect_ule_fast a' b' c' d' p vs = (False, vs)) \<and>
   (even a \<and> v < length (m_viable st) \<longrightarrow>
      viable_intersect_eq a v b p st =
        Inr (conflict_if_empty v
          (st\<lparr>s_m_trail := viable_i # s_m_trail st,
              m_viable_trail := (v, m_viable st ! v) # m_viable_trail st,
              m_viable := (m_viable st)[v := snd (intersect_eq_budget a b p 10 (m_viable st ! v))]\<rparr>)))"
  by (simp add: intersect_eq_fast_def intersect_ule_fast_def viable_intersect_eq_def push_viable_def)

text \<open>The hypotheses at \<open>2*v = 0\<close> and \<open>2*v \<le> 3*v + 5\<close> on the free set of width 8.\<close>

theorem fast_path_failure_keeps_domain_witness:
  "even (2::int) \<and> intersect_eq_fast 2 0 True (free_set 8) = Inr (False, free_set 8)
   \<and> \<not> (odd (2::int) \<and> (0::int) = 0 \<and> (3::int) = 0 \<and> (5::int) = 0)
   \<and> \<not> ((2::int) = 1 \<and> (0::int) = 0 \<and> (3::int) = 0) \<and> \<not> ((2::int) = 0 \<and> (3::int) = 1 \<and> (5::int) = 0)
   \<and> intersect_ule_fast 2 0 3 5 True (free_set 8) = (False, free_set 8)
   \<and> 0 < length (m_viable (init_viable [8]))
   \<and> viable_intersect_eq 2 0 0 True (init_viable [8]) =
        Inr (conflict_if_empty 0
          ((init_viable [8])\<lparr>s_m_trail := viable_i # s_m_trail (init_viable [8]),
              m_viable_trail := (0, m_viable (init_viable [8]) ! 0) # m_viable_trail (init_viable [8]),
              m_viable := (m_viable (init_viable [8]))[0 := snd (intersect_eq_budget 2 0 True 10 (m_viable (init_viable [8]) ! 0))]\<rparr>))"
  using fast_path_failure_keeps_domain [of 2 0 True "free_set 8" 2 0 3 5 0 "init_viable [8]"]
  by (simp add: init_viable_def)

text \<open>
  Claim C2 as stated fails, on four calls on the free domain of width 8, none of which
  empties it. \<open>2*v = 0\<close>: the low end satisfies the equation, the search stops at once, and
  1 stays although \<open>2*1\<close> is not 0. \<open>2*v \<noteq> 0\<close>: the search moves the low end to 1 and stops,
  and 128 stays although \<open>2*128\<close> is 0 modulo 256. \<open>3*v + 1 \<noteq> 0\<close>: the excluded value 85
  lies strictly inside and stays. \<open>100 \<le> 2*v\<close>: the diagram moves the low end to 50, and
  130 stays although \<open>2*130\<close> is 4 modulo 256.
\<close>

theorem narrowing_soundness_counterexample:
  "viable_intersect_eq 2 0 0 True (init_viable [8]) =
     Inr ((init_viable [8])\<lparr>m_viable_trail := [(0, free_set 8)], s_m_trail := [viable_i]\<rparr>)
   \<and> m_viable ((init_viable [8])\<lparr>m_viable_trail := [(0, free_set 8)], s_m_trail := [viable_i]\<rparr>) ! 0
       = free_set 8
   \<and> \<not> is_empty (free_set 8) \<and> admissible (free_set 8) 1 \<and> \<not> eq_holds 8 2 0 True 1
   \<and> viable_intersect_eq 2 0 0 False (init_viable [8]) =
       Inr ((init_viable [8])\<lparr>m_viable := [\<lparr>emp = False, lo = 1, hi = 0, m_num_bits = 8\<rparr>],
              m_viable_trail := [(0, free_set 8)], s_m_trail := [viable_i]\<rparr>)
   \<and> admissible \<lparr>emp = False, lo = 1, hi = 0, m_num_bits = 8\<rparr> 128 \<and> \<not> eq_holds 8 2 0 False 128
   \<and> viable_intersect_eq 3 0 1 False (init_viable [8]) =
       Inr ((init_viable [8])\<lparr>m_viable_trail := [(0, free_set 8)], s_m_trail := [viable_i]\<rparr>)
   \<and> admissible (free_set 8) 85 \<and> \<not> eq_holds 8 3 1 False 85
   \<and> viable_intersect_ule 0 0 100 2 0 True (init_viable [8]) =
       Inr ((init_viable [8])\<lparr>m_viable := [\<lparr>emp = False, lo = 50, hi = 0, m_num_bits = 8\<rparr>],
              m_viable_trail := [(0, free_set 8)],
              m_ineq_cache := [\<lparr>m_bit_width = 8, m_a = 0, m_b = 100, m_c = 2, m_d = 0,
                                repr = ule_holds 8 0 100 2 0 True, m_activity = 1\<rparr>],
              s_m_trail := [viable_i]\<rparr>)
   \<and> admissible \<lparr>emp = False, lo = 50, hi = 0, m_num_bits = 8\<rparr> 130
   \<and> \<not> ule_holds 8 0 100 2 0 True 130"
proof -
  let ?st = "init_viable [8]"
  have b1: "intersect_eq_budget 2 0 True 10 (free_set 8) = (10, free_set 8)" by code_simp
  have g1: "intersect_eq_fast 2 0 True (free_set 8) = Inr (False, free_set 8)"
    by (simp add: intersect_eq_fast_def)
  have e1: "viable_intersect_eq 2 0 0 True ?st =
     Inr (?st\<lparr>m_viable_trail := [(0, free_set 8)], s_m_trail := [viable_i]\<rparr>)"
    using b1 g1
    by (simp add: viable_intersect_eq_def push_viable_def init_viable_def conflict_if_empty_def
          is_empty_def free_set_def Let_def)
  have b2: "intersect_eq_budget 2 0 False 10 (free_set 8)
              = (9, \<lparr>emp = False, lo = 1, hi = 0, m_num_bits = 8\<rparr>)" by code_simp
  have g2: "intersect_eq_fast 2 0 False (free_set 8) = Inr (False, free_set 8)"
    by (simp add: intersect_eq_fast_def)
  have e2: "viable_intersect_eq 2 0 0 False ?st =
     Inr (?st\<lparr>m_viable := [\<lparr>emp = False, lo = 1, hi = 0, m_num_bits = 8\<rparr>],
              m_viable_trail := [(0, free_set 8)], s_m_trail := [viable_i]\<rparr>)"
    using b2 g2
    by (simp add: viable_intersect_eq_def push_viable_def init_viable_def conflict_if_empty_def
          is_empty_def Let_def)
  have g3: "intersect_eq_fast 3 1 False (free_set 8) = Inr (True, free_set 8)" by code_simp
  have e3: "viable_intersect_eq 3 0 1 False ?st =
     Inr (?st\<lparr>m_viable_trail := [(0, free_set 8)], s_m_trail := [viable_i]\<rparr>)"
    using g3
    by (simp add: viable_intersect_eq_def push_viable_def init_viable_def conflict_if_empty_def
          is_empty_def free_set_def Let_def)
  have f2: "intersect_ule_fast 0 100 2 0 True (free_set 8) = (False, free_set 8)"
    by (simp add: intersect_ule_fast_def)
  have f3: "intersect_ule_budget 0 100 2 0 True 10 (free_set 8)
              = (0, \<lparr>emp = False, lo = 10, hi = 0, m_num_bits = 8\<rparr>)" by code_simp
  have f4: "ule_fallback 8 0 100 2 0 True
              [\<lparr>m_bit_width = 8, m_a = 0, m_b = 100, m_c = 2, m_d = 0,
                repr = ule_holds 8 0 100 2 0 True, m_activity = 0\<rparr>]
              \<lparr>emp = False, lo = 10, hi = 0, m_num_bits = 8\<rparr>
            = \<lparr>emp = False, lo = 50, hi = 0, m_num_bits = 8\<rparr>" by code_simp
  have e4: "viable_intersect_ule 0 0 100 2 0 True ?st =
     Inr (?st\<lparr>m_viable := [\<lparr>emp = False, lo = 50, hi = 0, m_num_bits = 8\<rparr>],
              m_viable_trail := [(0, free_set 8)],
              m_ineq_cache := [\<lparr>m_bit_width = 8, m_a = 0, m_b = 100, m_c = 2, m_d = 0,
                                repr = ule_holds 8 0 100 2 0 True, m_activity = 1\<rparr>],
              s_m_trail := [viable_i]\<rparr>)"
    by (simp add: viable_intersect_ule_def push_viable_def init_viable_def f2 f3 f4
          cache_lookup_def same_key_def conflict_if_empty_def is_empty_def Let_def)
  have c: "\<not> is_empty (free_set 8)" "admissible (free_set 8) 1" "\<not> eq_holds 8 2 0 True 1"
    "admissible \<lparr>emp = False, lo = 1, hi = 0, m_num_bits = 8\<rparr> 128" "\<not> eq_holds 8 2 0 False 128"
    "admissible (free_set 8) 85" "\<not> eq_holds 8 3 1 False 85"
    "admissible \<lparr>emp = False, lo = 50, hi = 0, m_num_bits = 8\<rparr> 130"
    "\<not> ule_holds 8 0 100 2 0 True 130"
    by code_simp+
  have m: "m_viable (?st\<lparr>m_viable_trail := [(0, free_set 8)], s_m_trail := [viable_i]\<rparr>) ! 0
       = free_set 8" by (simp add: init_viable_def)
  show ?thesis using e1 e2 e3 e4 c m by simp
qed


text \<open>
  Claim C3 fails on the code. \<^verbatim>\<open>set_hi\<close> overwrites \<open>hi\<close> whenever \<open>hi \<noteq> 0\<close>, also with a
  larger bound: on the well-formed set \<open>[0, 6)\<close> of width 8, \<^verbatim>\<open>set_hi(10)\<close>, reached through
  the closed form \<open>v \<le> 10\<close> of \<^verbatim>\<open>intersect_ule\<close>, yields \<open>[0, 11)\<close>, which admits 7.
\<close>

theorem set_hi_widens_domain:
  "set_hi 10 \<lparr>emp = False, lo = 0, hi = 6, m_num_bits = 8\<rparr>
     = \<lparr>emp = False, lo = 0, hi = 11, m_num_bits = 8\<rparr>
   \<and> intersect_ule_fast 1 0 0 10 True \<lparr>emp = False, lo = 0, hi = 6, m_num_bits = 8\<rparr>
     = (True, \<lparr>emp = False, lo = 0, hi = 11, m_num_bits = 8\<rparr>)
   \<and> well_formed \<lparr>emp = False, lo = 0, hi = 6, m_num_bits = 8\<rparr>
   \<and> admissible \<lparr>emp = False, lo = 0, hi = 11, m_num_bits = 8\<rparr> 7
   \<and> \<not> admissible \<lparr>emp = False, lo = 0, hi = 6, m_num_bits = 8\<rparr> 7"
  by code_simp

text \<open>Read off the evaluation: 7 is admitted after the call and was not before.\<close>

theorem set_hi_widens_domain_witness:
  "admissible (set_hi 10 \<lparr>emp = False, lo = 0, hi = 6, m_num_bits = 8\<rparr>) 7
   \<and> \<not> admissible \<lparr>emp = False, lo = 0, hi = 6, m_num_bits = 8\<rparr> 7"
  using set_hi_widens_domain by simp

text \<open>
  Claim C7 fails on the code. \<open>2*v + 2 = 0\<close> on the free domain of width 8 has the
  solutions 127 and 255. The closed form does not apply, the search spends its ten
  probes moving \<open>lo\<close> to 10, and \<^verbatim>\<open>viable::intersect_eq\<close> returns with the domain
  \<open>[10, 2^8)\<close>: no diagram is consulted, no conflict is raised, nothing in the state tells
  the caller that 11, which violates the equation, is still admitted.
\<close>

theorem budget_exhausted_silently:
  "intersect_eq_fast 2 2 True (free_set 8) = Inr (False, free_set 8)
   \<and> intersect_eq_budget 2 2 True 10 (free_set 8)
       = (0, \<lparr>emp = False, lo = 10, hi = 0, m_num_bits = 8\<rparr>)
   \<and> viable_intersect_eq 2 0 2 True (init_viable [8]) =
       Inr ((init_viable [8])\<lparr>m_viable := [\<lparr>emp = False, lo = 10, hi = 0, m_num_bits = 8\<rparr>],
              m_viable_trail := [(0, free_set 8)], s_m_trail := [viable_i]\<rparr>)
   \<and> admissible \<lparr>emp = False, lo = 10, hi = 0, m_num_bits = 8\<rparr> 11
   \<and> \<not> eq_holds 8 2 2 True 11"
proof -
  have a: "intersect_eq_budget 2 2 True 10 (free_set 8)
             = (0, \<lparr>emp = False, lo = 10, hi = 0, m_num_bits = 8\<rparr>)" by code_simp
  have b: "intersect_eq_fast 2 2 True (free_set 8) = Inr (False, free_set 8)"
    by (simp add: intersect_eq_fast_def)
  have c: "viable_intersect_eq 2 0 2 True (init_viable [8]) =
       Inr ((init_viable [8])\<lparr>m_viable := [\<lparr>emp = False, lo = 10, hi = 0, m_num_bits = 8\<rparr>],
              m_viable_trail := [(0, free_set 8)], s_m_trail := [viable_i]\<rparr>)"
    by (simp add: viable_intersect_eq_def push_viable_def init_viable_def a b
          conflict_if_empty_def is_empty_def Let_def)
  have d: "admissible \<lparr>emp = False, lo = 10, hi = 0, m_num_bits = 8\<rparr> 11 \<and> \<not> eq_holds 8 2 2 True 11"
    by code_simp
  show ?thesis using a b c d by simp
qed

text \<open>Read off the evaluation: the search ends with no budget left and 11 still admitted.\<close>

theorem budget_exhausted_silently_witness:
  "fst (intersect_eq_budget 2 2 True 10 (free_set 8)) = 0
   \<and> admissible (snd (intersect_eq_budget 2 2 True 10 (free_set 8))) 11
   \<and> \<not> eq_holds 8 2 2 True 11"
  using budget_exhausted_silently by simp

subsection \<open>The operations keep the shape of the domains\<close>

lemma emp_kept:
  "emp vs \<Longrightarrow> emp (set_lo b vs)" "emp vs \<Longrightarrow> emp (set_hi d vs)"
  "emp vs \<Longrightarrow> emp (intersect_eq_pt a p vs)"
  by (simp_all add: set_lo_def set_hi_def intersect_eq_pt_def vs_defs)

lemma wf_emp: "emp vs \<Longrightarrow> well_formed vs"
  by (simp add: well_formed_def)

lemma wf_ule_fast:
  assumes wf: "well_formed vs" and b: "in_range vs b" and d: "in_range vs d"
  shows "well_formed (snd (intersect_ule_fast a b c d p vs))"
    and "m_num_bits (snd (intersect_ule_fast a b c d p vs)) = m_num_bits vs"
proof -
  have d1: "\<not> is_max vs d \<Longrightarrow> in_range vs (d + 1)"
    using d by (auto simp: is_max_def in_range_def p2_def)
  have b1: "b \<noteq> 0 \<Longrightarrow> in_range vs (b - 1)"
    using b by (auto simp: in_range_def)
  show "well_formed (snd (intersect_ule_fast a b c d p vs))"
    using wf b d d1 b1 wf_set_hi wf_set_lo wf_intersect_eq_pt [OF wf zero_in_range]
    by (auto simp: intersect_ule_fast_def set_empty_def wf_emp)
  show "m_num_bits (snd (intersect_ule_fast a b c d p vs)) = m_num_bits vs"
    by (simp add: intersect_ule_fast_def set_empty_def)
qed

lemma wf_eq_fast:
  assumes "well_formed vs" "intersect_eq_fast a b p vs = Inr (ok, vs')"
  shows "well_formed vs'" "m_num_bits vs' = m_num_bits vs"
proof -
  have "vs' = vs \<or> (\<exists>pt. in_range vs pt \<and> vs' = intersect_eq_pt pt p vs)"
    using assms(2) pt_in_range [of vs] zero_in_range [of vs]
    by (auto simp: intersect_eq_fast_def split: if_splits option.splits)
  then show "well_formed vs'" "m_num_bits vs' = m_num_bits vs"
    using assms(1) wf_intersect_eq_pt by auto
qed

lemma bits_ule_fallback [simp]:
  "m_num_bits (ule_fallback sz a b c d p cache vs) = m_num_bits vs"
  by (simp add: ule_fallback_def set_ne_def split: option.splits)

lemma wf_ule_fallback:
  assumes wf: "well_formed vs"
  shows "well_formed (ule_fallback (m_num_bits vs) a b c d p cache vs)"
proof -
  show "well_formed (ule_fallback (m_num_bits vs) a b c d p cache vs)"
  proof (cases "emp vs")
    case True
    then show ?thesis
      by (auto simp: ule_fallback_def set_ne_def emp_kept wf_emp split: option.splits)
  next
    case False
    have lf: "0 \<le> lo vs" "lo vs < p2 vs" using wf False by (auto simp: well_formed_def)
    have "well_formed (set_ne bound (set_lo bound vs))"
      if "fdd_sup (m_num_bits vs) g (lo vs) = Some bound" for g bound
    proof -
      have bd: "bound = sup_run g (lo vs) (nat (2 ^ m_num_bits vs - 1 - lo vs))"
        using that by (auto simp: fdd_sup_def split: if_splits)
      have "lo vs \<le> bound" "bound \<le> lo vs + int (nat (2 ^ m_num_bits vs - 1 - lo vs))"
        using sup_run_props [of "lo vs" g "nat (2 ^ m_num_bits vs - 1 - lo vs)"] unfolding bd by blast+
      then have br: "in_range vs bound" using lf by (auto simp: in_range_def p2_def)
      have "in_range (set_lo bound vs) bound" using br by (simp add: in_range_def p2_def)
      then show ?thesis unfolding set_ne_def
        using wf_intersect_eq_pt [OF wf_set_lo [OF wf br]] by blast
    qed
    then show ?thesis using wf by (auto simp: ule_fallback_def split: option.splits)
  qed
qed

lemma cache_ok_kept:
  assumes "cache_ok cache"
  shows "cache_ok (bump_activity sz a b c d (cache_lookup sz a b c d cache))"
proof -
  have 1: "cache_ok (cache_lookup sz a b c d cache)"
    using assms by (auto simp: cache_lookup_def cache_ok_def split: option.splits)
  have "cache_ok xs \<Longrightarrow> cache_ok (bump_activity sz a b c d xs)" for xs
    by (induction xs) (auto simp: cache_ok_def)
  then show ?thesis using 1 by blast
qed

lemma shape_update:
  assumes "\<forall>i<length xs. well_formed (xs ! i)" "well_formed y" "m_num_bits y = m_num_bits (xs ! v)"
  shows "length (xs[v := y]) = length xs \<and>
         (\<forall>i<length (xs[v := y]). well_formed (xs[v := y] ! i) \<and>
              m_num_bits (xs[v := y] ! i) = m_num_bits (xs ! i))"
proof -
  have "well_formed (xs[v := y] ! i) \<and> m_num_bits (xs[v := y] ! i) = m_num_bits (xs ! i)"
    if "i < length xs" for i
    using that assms by (cases "i = v") simp_all
  then show ?thesis by simp
qed

text \<open>
  The shape assumed of a domain is the shape the tracker keeps: from free domains, every
  mutation with constants inside the value space leaves every domain well formed, with
  its width, and the cache sound.
\<close>

lemma viable_ops_keep_shape:
  assumes r: "apply_viable_op x st = Inr st'"
    and wf: "\<forall>i < length (m_viable st). well_formed (m_viable st ! i)"
    and rg: "case x of Intersect_eq a v b p \<Rightarrow> True
             | Intersect_ule v a b c d p \<Rightarrow> in_range (m_viable st ! v) b \<and> in_range (m_viable st ! v) d
                                              \<and> s_size st v = m_num_bits (m_viable st ! v)
             | Add_non_viable v k \<Rightarrow> in_range (m_viable st ! v) k"
  shows "length (m_viable st') = length (m_viable st)"
    and "\<forall>i < length (m_viable st'). well_formed (m_viable st' ! i) \<and>
            m_num_bits (m_viable st' ! i) = m_num_bits (m_viable st ! i)"
    and "s_size st' = s_size st"
    and "cache_ok (m_ineq_cache st) \<Longrightarrow> cache_ok (m_ineq_cache st')"
proof -
  have "length (m_viable st') = length (m_viable st) \<and>
        (\<forall>i < length (m_viable st'). well_formed (m_viable st' ! i) \<and>
            m_num_bits (m_viable st' ! i) = m_num_bits (m_viable st ! i)) \<and>
        s_size st' = s_size st \<and> (cache_ok (m_ineq_cache st) \<longrightarrow> cache_ok (m_ineq_cache st'))"
  proof (cases x)
    case (Intersect_eq a v b p)
    then have e: "viable_intersect_eq a v b p st = Inr st'" using r by simp
    have v: "v < length (m_viable st)" using viable_eq_result(1) [OF e] .
    obtain ok vs1 where f: "intersect_eq_fast a b p (m_viable st ! v) = Inr (ok, vs1)"
      using viable_eq_result(2) [OF e] by blast
    let ?vs2 = "if ok then vs1 else snd (intersect_eq_budget a b p 10 vs1)"
    have w1: "well_formed vs1" "m_num_bits vs1 = m_num_bits (m_viable st ! v)"
      using wf_eq_fast [OF _ f] wf v by auto
    have w2: "well_formed ?vs2" "m_num_bits ?vs2 = m_num_bits (m_viable st ! v)"
      using w1 narrow_keeps(1,2) [OF w1(1)] by (auto simp: intersect_eq_budget_def)
    have m: "m_viable st' = (m_viable st)[v := ?vs2]" "s_size st' = s_size st"
      "m_ineq_cache st' = m_ineq_cache st"
      using e v f
      by (auto simp: viable_intersect_eq_def push_viable_def conflict_if_empty_def set_conflict_def Let_def)
    show ?thesis unfolding m using shape_update [OF wf w2] by simp
  next
    case (Intersect_ule v a b c d p)
    then have e: "viable_intersect_ule v a b c d p st = Inr st'" using r by simp
    have v: "v < length (m_viable st)" using viable_ule_result(1) [OF e] .
    let ?vs = "m_viable st ! v"
    have wv: "well_formed ?vs" using wf v by simp
    have g: "in_range ?vs b" "in_range ?vs d" "s_size st v = m_num_bits ?vs"
      using rg Intersect_ule by simp_all
    obtain ok vs1 where f: "intersect_ule_fast a b c d p ?vs = (ok, vs1)"
      by (cases "intersect_ule_fast a b c d p ?vs")
    have w1: "well_formed vs1" "m_num_bits vs1 = m_num_bits ?vs"
      using wf_ule_fast [OF wv g(1,2), of a c p] f by simp_all
    obtain k vs2 where n: "intersect_ule_budget a b c d p 10 vs1 = (k, vs2)"
      by (cases "intersect_ule_budget a b c d p 10 vs1")
    have w2: "well_formed vs2" "m_num_bits vs2 = m_num_bits ?vs"
      using narrow_keeps(1,2) [OF w1(1), of "ule_holds (m_num_bits vs1) a b c d p" 10] n w1(2)
      by (simp_all add: intersect_ule_budget_def)
    let ?ch = "cache_lookup (s_size st v) a b c d (m_ineq_cache st)"
    let ?vs3 = "ule_fallback (s_size st v) a b c d p ?ch vs2"
    have w3: "well_formed ?vs3" "m_num_bits ?vs3 = m_num_bits ?vs"
      using wf_ule_fallback [OF w2(1), of a b c d p ?ch] w2(2) g(3) by simp_all
    have "\<exists>vs'. well_formed vs' \<and> m_num_bits vs' = m_num_bits ?vs \<and>
            m_viable st' = (m_viable st)[v := vs'] \<and> s_size st' = s_size st \<and>
            (m_ineq_cache st' = m_ineq_cache st \<or>
             m_ineq_cache st' = bump_activity (s_size st v) a b c d ?ch)"
    proof (cases ok)
      case True
      then have "m_viable st' = (m_viable st)[v := vs1] \<and> s_size st' = s_size st \<and>
                 m_ineq_cache st' = m_ineq_cache st"
        using e v f
        by (auto simp: viable_intersect_ule_def push_viable_def conflict_if_empty_def set_conflict_def)
      then show ?thesis using w1 by blast
    next
      case False
      show ?thesis
      proof (cases k)
        case 0
        then have "m_viable st' = (m_viable st)[v := ?vs3] \<and> s_size st' = s_size st \<and>
                 m_ineq_cache st' = bump_activity (s_size st v) a b c d ?ch"
          using e v f n False
          by (auto simp: viable_intersect_ule_def push_viable_def conflict_if_empty_def set_conflict_def Let_def)
        then show ?thesis using w3 by blast
      next
        case (Suc k')
        then have "m_viable st' = (m_viable st)[v := vs2] \<and> s_size st' = s_size st \<and>
                 m_ineq_cache st' = m_ineq_cache st"
          using e v f n False
          by (auto simp: viable_intersect_ule_def push_viable_def conflict_if_empty_def set_conflict_def)
        then show ?thesis using w2 by blast
      qed
    qed
    then obtain vs' where m: "well_formed vs'" "m_num_bits vs' = m_num_bits ?vs"
      "m_viable st' = (m_viable st)[v := vs']" "s_size st' = s_size st"
      "m_ineq_cache st' = m_ineq_cache st \<or> m_ineq_cache st' = bump_activity (s_size st v) a b c d ?ch"
      by blast
    show ?thesis unfolding m(3)
      using shape_update [OF wf m(1,2)] m(4,5) cache_ok_kept [of "m_ineq_cache st" "s_size st v" a b c d]
      by auto
  next
    case (Add_non_viable v k)
    then have e: "add_non_viable v k st = Inr st'" using r by simp
    have v: "v < length (m_viable st)"
      using e by (auto simp: add_non_viable_def push_viable_def split: if_splits)
    have g: "in_range (m_viable st ! v) k" using rg Add_non_viable by simp
    have w: "well_formed (set_ne k (m_viable st ! v))"
      unfolding set_ne_def using wf_intersect_eq_pt [OF _ g] wf v by simp
    have m: "m_viable st' = (m_viable st)[v := set_ne k (m_viable st ! v)]" "s_size st' = s_size st"
      "m_ineq_cache st' = m_ineq_cache st"
      using e v
      by (auto simp: add_non_viable_def push_viable_def conflict_if_empty_def set_conflict_def)
    have "m_num_bits (set_ne k (m_viable st ! v)) = m_num_bits (m_viable st ! v)"
      by (simp add: set_ne_def)
    then show ?thesis unfolding m using shape_update [OF wf w] by simp
  qed
  then show "length (m_viable st') = length (m_viable st)"
    and "\<forall>i < length (m_viable st'). well_formed (m_viable st' ! i) \<and>
            m_num_bits (m_viable st' ! i) = m_num_bits (m_viable st ! i)"
    and "s_size st' = s_size st"
    and "cache_ok (m_ineq_cache st) \<Longrightarrow> cache_ok (m_ineq_cache st')"
    by blast+
qed

lemma init_viable_shape:
  "\<forall>i < length (m_viable (init_viable ws)). well_formed (m_viable (init_viable ws) ! i) \<and>
      s_size (init_viable ws) i = m_num_bits (m_viable (init_viable ws) ! i)"
  "cache_ok (m_ineq_cache (init_viable ws))"
  by (simp_all add: init_viable_def free_set_def well_formed_def p2_def cache_ok_def)


section \<open>Properties of the linear solver\<close>

subsection \<open>The table of engines\<close>

lemma fix_get_fix_set: "fix_get (fix_set fx i b) j = (if j = i then b else fix_get fx j)"
  by (auto simp: fix_get_def fix_set_def reserve_def nth_append nth_list_update)

lemma fix_ok_iff:
  "fix_ok fx \<longleftrightarrow> (\<forall>i b. fix_get fx i = Some b \<longrightarrow> (i = 32 \<or> i = 64 \<or> i = 256) \<and> fp_bits b = i)"
proof -
  have "fix_ok fx \<longleftrightarrow> (\<forall>i < length fx. case fx ! i of None \<Rightarrow> True
                          | Some b \<Rightarrow> (i = 32 \<or> i = 64 \<or> i = 256) \<and> fp_bits b = i)"
    by (simp add: fix_ok_def list_all_length nth_enumerate_eq)
  then show ?thesis
    by (auto simp: fix_get_def split: option.splits if_splits)
qed

text \<open>
  Claim C8. \<^verbatim>\<open>sz2fixplex\<close> hands out the stored engine when there is one, without building
  anything; on first use of width 32, 64 or 256 it builds the engine of that width and
  stores it at index \<open>sz\<close>, touching no other entry; for a width without an engine that is
  not 32, 64 or 256 (128 among them) it ends with \<^verbatim>\<open>NOT_IMPLEMENTED_YET\<close>. Where engines
  exist only for supported widths with the representation of their width (\<open>fix_ok\<close>,
  which \<^verbatim>\<open>sz2fixplex\<close> maintains), every unsupported width fails, and a successful call
  leaves at \<open>sz\<close> an engine of exactly this width.
\<close>

theorem sz2fixplex_lazy_per_width:
  "(fix_get (m_fix s) sz = Some b \<longrightarrow> sz2fixplex sz s = Inr s)
   \<and> (fix_get (m_fix s) sz = None \<and> (sz = 32 \<or> sz = 64 \<or> sz = 256) \<longrightarrow>
        sz2fixplex sz s = Inr (s\<lparr>m_fix := fix_set (m_fix s) sz (Some (mk_fixplex sz))\<rparr>)
        \<and> fix_get (fix_set (m_fix s) sz (Some (mk_fixplex sz))) sz = Some (mk_fixplex sz)
        \<and> fp_bits (mk_fixplex sz) = sz
        \<and> (\<forall>i. i \<noteq> sz \<longrightarrow> fix_get (fix_set (m_fix s) sz (Some (mk_fixplex sz))) i = fix_get (m_fix s) i))
   \<and> (fix_get (m_fix s) sz = None \<and> sz \<noteq> 32 \<and> sz \<noteq> 64 \<and> sz \<noteq> 256 \<longrightarrow>
        sz2fixplex sz s = Inl Not_implemented_yet)
   \<and> (fix_ok (m_fix s) \<longrightarrow>
        (sz \<noteq> 32 \<and> sz \<noteq> 64 \<and> sz \<noteq> 256 \<longrightarrow> sz2fixplex sz s = Inl Not_implemented_yet)
        \<and> (\<forall>s'. sz2fixplex sz s = Inr s' \<longrightarrow>
              fix_ok (m_fix s') \<and> (\<exists>e. fix_get (m_fix s') sz = Some e \<and> fp_bits e = sz)))"
proof (intro conjI impI allI)
  assume "fix_get (m_fix s) sz = Some b"
  then show "sz2fixplex sz s = Inr s" by (simp add: sz2fixplex_def)
next
  assume a: "fix_get (m_fix s) sz = None \<and> (sz = 32 \<or> sz = 64 \<or> sz = 256)"
  then show "sz2fixplex sz s = Inr (s\<lparr>m_fix := fix_set (m_fix s) sz (Some (mk_fixplex sz))\<rparr>)"
    by (auto simp: sz2fixplex_def)
  show "fix_get (fix_set (m_fix s) sz (Some (mk_fixplex sz))) sz = Some (mk_fixplex sz)"
    by (simp add: fix_get_fix_set)
  show "fp_bits (mk_fixplex sz) = sz" by (simp add: mk_fixplex_def)
next
  fix i assume "i \<noteq> sz"
  then show "fix_get (fix_set (m_fix s) sz (Some (mk_fixplex sz))) i = fix_get (m_fix s) i"
    by (simp add: fix_get_fix_set)
next
  assume "fix_get (m_fix s) sz = None \<and> sz \<noteq> 32 \<and> sz \<noteq> 64 \<and> sz \<noteq> 256"
  then show "sz2fixplex sz s = Inl Not_implemented_yet" by (simp add: sz2fixplex_def)
next
  assume ok: "fix_ok (m_fix s)" and u: "sz \<noteq> 32 \<and> sz \<noteq> 64 \<and> sz \<noteq> 256"
  then have "fix_get (m_fix s) sz = None"
    using fix_ok_iff [of "m_fix s"] by (cases "fix_get (m_fix s) sz") auto
  then show "sz2fixplex sz s = Inl Not_implemented_yet" using u by (simp add: sz2fixplex_def)
next
  fix s' assume ok: "fix_ok (m_fix s)" and r: "sz2fixplex sz s = Inr s'"
  show "fix_ok (m_fix s')"
  proof (cases "fix_get (m_fix s) sz")
    case None
    then have "(sz = 32 \<or> sz = 64 \<or> sz = 256) \<and> m_fix s' = fix_set (m_fix s) sz (Some (mk_fixplex sz))"
      using r by (auto simp: sz2fixplex_def split: if_splits)
    then show ?thesis using ok unfolding fix_ok_iff
      by (auto simp: fix_get_fix_set mk_fixplex_def split: if_splits)
  next
    case (Some e)
    then show ?thesis using r ok by (simp add: sz2fixplex_def)
  qed
  show "\<exists>e. fix_get (m_fix s') sz = Some e \<and> fp_bits e = sz"
  proof (cases "fix_get (m_fix s) sz")
    case None
    then have "(sz = 32 \<or> sz = 64 \<or> sz = 256) \<and> m_fix s' = fix_set (m_fix s) sz (Some (mk_fixplex sz))"
      using r by (auto simp: sz2fixplex_def split: if_splits)
    then show ?thesis by (auto simp: fix_get_fix_set mk_fixplex_def)
  next
    case (Some e)
    then show ?thesis using r ok fix_ok_iff [of "m_fix s"] by (auto simp: sz2fixplex_def)
  qed
qed

text \<open>The hypotheses at the empty table: width 64 twice, then width 128.\<close>

theorem sz2fixplex_lazy_per_width_witness:
  "fix_get (m_fix (init_solver (\<lambda>v. 64))) 64 = None
   \<and> sz2fixplex 64 (init_solver (\<lambda>v. 64)) =
       Inr ((init_solver (\<lambda>v. 64))\<lparr>m_fix := fix_set [] 64 (Some (mk_fixplex 64))\<rparr>)
   \<and> fix_get (fix_set [] 64 (Some (mk_fixplex 64))) 64 = Some (mk_fixplex 64)
   \<and> sz2fixplex 64 ((init_solver (\<lambda>v. 64))\<lparr>m_fix := fix_set [] 64 (Some (mk_fixplex 64))\<rparr>) =
       Inr ((init_solver (\<lambda>v. 64))\<lparr>m_fix := fix_set [] 64 (Some (mk_fixplex 64))\<rparr>)
   \<and> fix_get (m_fix (init_solver (\<lambda>v. 64))) 128 = None
   \<and> sz2fixplex 128 (init_solver (\<lambda>v. 64)) = Inl Not_implemented_yet
   \<and> fix_ok (m_fix (init_solver (\<lambda>v. 64)))
   \<and> fix_ok (fix_set [] 64 (Some (mk_fixplex 64)))"
proof -
  let ?s = "init_solver (\<lambda>v. 64)"
  let ?s' = "?s\<lparr>m_fix := fix_set [] 64 (Some (mk_fixplex 64))\<rparr>"
  have m: "m_fix ?s = []" by (simp add: init_solver_def)
  have n: "fix_get (m_fix ?s) 64 = None" "fix_get (m_fix ?s) 128 = None" "fix_ok (m_fix ?s)"
    by (simp_all add: m fix_get_def fix_ok_def)
  have g: "fix_get (m_fix ?s') 64 = Some (mk_fixplex 64)" by (simp add: fix_get_fix_set)
  note t1 = sz2fixplex_lazy_per_width [of ?s 64 "mk_fixplex 64"]
  note t2 = sz2fixplex_lazy_per_width [of ?s' 64 "mk_fixplex 64"]
  note t3 = sz2fixplex_lazy_per_width [of ?s 128 "mk_fixplex 64"]
  have a: "sz2fixplex 64 ?s = Inr ?s'" using t1 n(1) unfolding m by simp
  have b: "sz2fixplex 64 ?s' = Inr ?s'" using t2 g by blast
  have c: "sz2fixplex 128 ?s = Inl Not_implemented_yet" using t3 n(2) by simp
  have d: "fix_ok (m_fix ?s')" using t1 n(3) a by blast
  show ?thesis using a b c d n g by (simp add: m)
qed

subsection \<open>check\<close>

lemma upt_shift: "[i ..< i + Suc n] = i # [Suc i ..< Suc i + n]"
  using upt_conv_Cons [of i "i + Suc n"] by (simp del: upt_Suc)

lemma check_loop_order:
  "length pre = i \<Longrightarrow> check_loop mf i fx res = (r, tr, fs) \<Longrightarrow>
     (r, tr) = check_in_order mf (filter (\<lambda>w. (pre @ fx) ! w \<noteq> None) [i ..< i + length fx]) (pre @ fx) res"
proof (induction mf i fx res arbitrary: pre r tr fs rule: check_loop.induct)
  case (1 mf i res)
  then show ?case by simp
next
  case (2 mf i fs0 res)
  obtain r' tr' fs' where c: "check_loop mf (Suc i) fs0 res = (r', tr', fs')"
    by (cases "check_loop mf (Suc i) fs0 res")
  have e: "r = r'" "tr = tr'" using "2.prems"(2) c by simp_all
  have l: "length (pre @ [None]) = Suc i" using "2.prems"(1) by simp
  have "[i ..< i + length (None # fs0)] = i # [Suc i ..< Suc i + length fs0]"
    using upt_shift [of i "length fs0"] by (simp del: upt_Suc)
  moreover have "(pre @ None # fs0) ! i = None" using "2.prems"(1) by (simp add: nth_append)
  ultimately show ?case using "2.IH" [OF l c] e by (simp del: upt_Suc)
next
  case (3 mf i f fs0 res)
  obtain v f' where m: "mf f = (v, f')" by (cases "mf f")
  have l: "length (pre @ [Some f]) = Suc i" using "3.prems"(1) by simp
  have u: "[i ..< i + length (Some f # fs0)] = i # [Suc i ..< Suc i + length fs0]"
    using upt_shift [of i "length fs0"] by (simp del: upt_Suc)
  have g: "(pre @ Some f # fs0) ! i = Some f" "fix_get (pre @ Some f # fs0) i = Some f"
    using "3.prems"(1) by (simp_all add: nth_append fix_get_def)
  show ?case
  proof (cases "v = l_false")
    case True
    then show ?thesis using "3.prems"(2) m u g by (simp del: upt_Suc)
  next
    case False
    obtain r' tr' fs' where c: "check_loop mf (Suc i) fs0 (if v = l_undef then l_undef else res) = (r', tr', fs')"
      by (cases "check_loop mf (Suc i) fs0 (if v = l_undef then l_undef else res)")
    have e: "r = r'" "tr = i # tr'" using "3.prems"(2) m c False by simp_all
    from "3.IH" [OF m [symmetric] False l c] show ?thesis
      using e m u g False by (cases "v = l_undef") (auto simp del: upt_Suc split: prod.splits dest: sym)
  qed
qed

lemma check_in_order_result:
  "check_in_order mf ws fx res = (r, tr) \<Longrightarrow> \<forall>w\<in>set ws. fix_get fx w \<noteq> None \<Longrightarrow> res \<noteq> l_false \<Longrightarrow>
   tr = takeWhile (\<lambda>w. verdict mf fx w \<noteq> l_false) ws
               @ take 1 (dropWhile (\<lambda>w. verdict mf fx w \<noteq> l_false) ws)
   \<and> (r = l_false \<longleftrightarrow> (\<exists>w\<in>set ws. verdict mf fx w = l_false))
   \<and> (r = l_undef \<longleftrightarrow> (\<forall>w\<in>set ws. verdict mf fx w \<noteq> l_false)
                           \<and> (res = l_undef \<or> (\<exists>w\<in>set ws. verdict mf fx w = l_undef)))"
proof (induction ws arbitrary: res r tr)
  case Nil
  then show ?case by auto
next
  case (Cons w ws)
  obtain f where f: "fix_get fx w = Some f" using Cons.prems(2) by auto
  then have v: "verdict mf fx w = fst (mf f)" by (simp add: verdict_def)
  let ?res = "if fst (mf f) = l_undef then l_undef else res"
  obtain r' tr' where c: "check_in_order mf ws fx ?res = (r', tr')"
    by (cases "check_in_order mf ws fx ?res")
  have n: "?res \<noteq> l_false" using Cons.prems(3) by simp
  have a: "\<forall>w\<in>set ws. fix_get fx w \<noteq> None" using Cons.prems(2) by simp
  note ih = Cons.IH [OF c a n]
  show ?case
  proof (cases "fst (mf f) = l_false")
    case True then show ?thesis using Cons.prems(1) f v by simp
  next
    case False
    then have "r = r'" "tr = w # tr'" using Cons.prems(1) f c by simp_all
    then show ?thesis using ih v False by auto
  qed
qed

lemma check_loop_engines:
  "check_loop mf i fx res = (r, tr, fs) \<Longrightarrow>
     length fs = length fx \<and> set tr \<subseteq> {i ..< i + length fx} \<and>
     (\<forall>j < length fx. fs ! j = (if i + j \<in> set tr then map_option (\<lambda>f. snd (mf f)) (fx ! j) else fx ! j))"
proof (induction mf i fx res arbitrary: r tr fs rule: check_loop.induct)
  case (1 mf i res)
  then show ?case by simp
next
  case (2 mf i fs0 res)
  obtain r' tr' fs' where c: "check_loop mf (Suc i) fs0 res = (r', tr', fs')"
    by (cases "check_loop mf (Suc i) fs0 res")
  have e: "tr = tr'" "fs = None # fs'" using "2.prems" c by simp_all
  from "2.IH" [OF c] have ih: "length fs' = length fs0" "set tr' \<subseteq> {Suc i ..< Suc i + length fs0}"
    "\<And>j. j < length fs0 \<Longrightarrow> fs' ! j = (if Suc i + j \<in> set tr' then map_option (\<lambda>f. snd (mf f)) (fs0 ! j) else fs0 ! j)"
    by simp_all
  have "fs ! j = (if i + j \<in> set tr then map_option (\<lambda>f. snd (mf f)) ((None # fs0) ! j) else (None # fs0) ! j)"
    if "j < length (None # fs0)" for j
    using that ih(3) [of "j - 1"] e by (cases j) auto
  then show ?case using ih(1,2) e by auto
next
  case (3 mf i f fs0 res)
  obtain v f' where m: "mf f = (v, f')" by (cases "mf f")
  show ?case
  proof (cases "v = l_false")
    case True
    then have e: "tr = [i]" "fs = Some f' # fs0" using "3.prems" m by simp_all
    have "fs ! j = (if i + j \<in> set tr then map_option (\<lambda>f. snd (mf f)) ((Some f # fs0) ! j) else (Some f # fs0) ! j)"
      if "j < length (Some f # fs0)" for j
      using that e m by (cases j) auto
    then show ?thesis using e by auto
  next
    case False
    obtain r' tr' fs' where c: "check_loop mf (Suc i) fs0 (if v = l_undef then l_undef else res) = (r', tr', fs')"
      by (cases "check_loop mf (Suc i) fs0 (if v = l_undef then l_undef else res)")
    have e: "tr = i # tr'" "fs = Some f' # fs'" using "3.prems" m c False by simp_all
    from "3.IH" [OF m [symmetric] False c]
    have ih: "length fs' = length fs0" "set tr' \<subseteq> {Suc i ..< Suc i + length fs0}"
      "\<And>j. j < length fs0 \<Longrightarrow> fs' ! j = (if Suc i + j \<in> set tr' then map_option (\<lambda>f. snd (mf f)) (fs0 ! j) else fs0 ! j)"
      by simp_all
    have "fs ! j = (if i + j \<in> set tr then map_option (\<lambda>f. snd (mf f)) ((Some f # fs0) ! j) else (Some f # fs0) ! j)"
      if "j < length (Some f # fs0)" for j
      using that ih(2) ih(3) [of "j - 1"] e m by (cases j) auto
    then show ?thesis using ih(1,2) e by auto
  qed
qed

lemma allocated_fix_get: "w \<in> set (allocated fx) \<Longrightarrow> fix_get fx w \<noteq> None"
  by (auto simp: allocated_def fix_get_def)

text \<open>
  Claim C5, as amended. \<^verbatim>\<open>check\<close> consults the allocated engines in ascending order of
  bit width (the index order of \<^verbatim>\<open>m_fix\<close>) and stops at the first that reports infeasible:
  the engines consulted are the allocated widths up to and including the first infeasible
  one, these are left as \<^verbatim>\<open>make_feasible\<close> leaves them and all others are untouched. The
  result is infeasible iff some allocated engine reports infeasible; unknown iff none
  reports infeasible and one reports unknown; feasible otherwise.
\<close>

theorem check_first_infeasible_in_width_order:
  assumes "check_loop mf 0 (m_fix s) l_true = (r, tr, fs)"
  shows "check mf s = (r, s\<lparr>m_fix := fs\<rparr>) \<and> checked_widths mf s = tr
     \<and> (r, tr) = check_in_order mf (allocated (m_fix s)) (m_fix s) l_true
     \<and> sorted (allocated (m_fix s)) \<and> distinct (allocated (m_fix s))
     \<and> tr = takeWhile (\<lambda>w. verdict mf (m_fix s) w \<noteq> l_false) (allocated (m_fix s))
            @ take 1 (dropWhile (\<lambda>w. verdict mf (m_fix s) w \<noteq> l_false) (allocated (m_fix s)))
     \<and> (r = l_false \<longleftrightarrow> (\<exists>w\<in>set (allocated (m_fix s)). verdict mf (m_fix s) w = l_false))
     \<and> (r = l_undef \<longleftrightarrow> (\<forall>w\<in>set (allocated (m_fix s)). verdict mf (m_fix s) w \<noteq> l_false)
                           \<and> (\<exists>w\<in>set (allocated (m_fix s)). verdict mf (m_fix s) w = l_undef))
     \<and> (r = l_true \<longleftrightarrow> (\<forall>w\<in>set (allocated (m_fix s)). verdict mf (m_fix s) w = l_true))
     \<and> length fs = length (m_fix s)
     \<and> (\<forall>j < length (m_fix s).
           fs ! j = (if j \<in> set tr then map_option (\<lambda>f. snd (mf f)) (m_fix s ! j) else m_fix s ! j))"
proof -
  let ?fx = "m_fix s"
  have 1: "check mf s = (r, s\<lparr>m_fix := fs\<rparr>)" "checked_widths mf s = tr"
    using assms by (simp_all add: check_def checked_widths_def)
  have 2: "(r, tr) = check_in_order mf (allocated ?fx) ?fx l_true"
    using check_loop_order [of "[]" 0 mf ?fx l_true r tr fs] assms by (simp add: allocated_def)
  have 3: "sorted (allocated ?fx)" "distinct (allocated ?fx)"
    by (simp_all add: allocated_def sorted_wrt_filter)
  have a: "\<forall>w\<in>set (allocated ?fx). fix_get ?fx w \<noteq> None" using allocated_fix_get by blast
  note 4 = check_in_order_result [OF 2 [symmetric] a]
  have 5: "r = l_true \<longleftrightarrow> (\<forall>w\<in>set (allocated ?fx). verdict mf ?fx w = l_true)"
  proof -
    have "r = l_true \<longleftrightarrow> r \<noteq> l_false \<and> r \<noteq> l_undef" by (cases r) auto
    also have "\<dots> \<longleftrightarrow> (\<forall>w\<in>set (allocated ?fx). verdict mf ?fx w \<noteq> l_false \<and> verdict mf ?fx w \<noteq> l_undef)"
      using 4 by auto
    also have "\<dots> \<longleftrightarrow> (\<forall>w\<in>set (allocated ?fx). verdict mf ?fx w = l_true)"
      by (metis lbool.exhaust lbool.distinct)
    finally show ?thesis .
  qed
  have 6: "length fs = length ?fx"
    "\<forall>j < length ?fx. fs ! j = (if j \<in> set tr then map_option (\<lambda>f. snd (mf f)) (?fx ! j) else ?fx ! j)"
    using check_loop_engines [OF assms] by simp_all
  show ?thesis using 1 2 3 4 5 6 by simp
qed

subsection \<open>Engines through sz2fixplex\<close>

lemma fix_get_Some_length: "fix_get fx i = Some b \<Longrightarrow> i < length fx"
  by (auto simp: fix_get_def split: if_splits)

lemma fix_set_inside: "i < length fx \<Longrightarrow> fix_set fx i b = fx[i := b]"
  by (simp add: fix_set_def reserve_def)

lemma fix_set_twice: "(fix_set fx i b)[i := c] = fix_set fx i c"
  by (simp add: fix_set_def)

lemma on_fixplex_eq:
  "on_fixplex sz f s =
     (case engine_at sz s of
        None \<Rightarrow> Inl Not_implemented_yet
      | Some e \<Rightarrow> (case f e of Inl x \<Rightarrow> Inl x
                   | Inr e' \<Rightarrow> Inr (s\<lparr>m_fix := fix_set (m_fix s) sz (Some e')\<rparr>)))"
proof (cases "fix_get (m_fix s) sz")
  case None
  then show ?thesis
    by (auto simp: on_fixplex_def sz2fixplex_def engine_at_def fix_get_fix_set fix_set_twice
             split: sum.splits)
next
  case (Some b)
  then show ?thesis
    using fix_set_inside [OF fix_get_Some_length [OF Some]]
    by (auto simp: on_fixplex_def sz2fixplex_def engine_at_def split: sum.splits)
qed

lemma sz2fixplex_eq:
  "sz2fixplex sz s =
     (case engine_at sz s of
        None \<Rightarrow> Inl Not_implemented_yet
      | Some e \<Rightarrow> Inr (s\<lparr>m_fix := fix_set (m_fix s) sz (Some e)\<rparr>))"
proof (cases "fix_get (m_fix s) sz")
  case None
  then show ?thesis by (auto simp: sz2fixplex_def engine_at_def)
next
  case (Some b)
  then have "fix_set (m_fix s) sz (Some b) = m_fix s"
    using fix_set_inside [OF fix_get_Some_length [OF Some], of "Some b"]
    by (auto simp: fix_get_def list_update_same_conv split: if_splits)
  then show ?thesis using Some by (simp add: sz2fixplex_def engine_at_def)
qed

lemma engine_at_fix_set [simp]:
  "engine_at i (s\<lparr>m_fix := fix_set fx sz (Some e)\<rparr>) =
     (if i = sz then Some e else engine_at i (s\<lparr>m_fix := fx\<rparr>))"
  by (simp add: engine_at_def fix_get_fix_set)

subsection \<open>The relation restored\<close>

lemma restored_refl: "restored s s"
  unfolding restored_def by (auto intro: exI [of _ 0])

lemma restored_trans: "restored s t \<Longrightarrow> restored t u \<Longrightarrow> restored s u"
  unfolding restored_def
  apply (elim conjE exE)
  apply (intro conjI)
        apply simp_all
   apply (metis append.assoc replicate_add)
  apply (metis option.distinct(1))
  done

lemma restored_engine:
  assumes "restored s t" "engine_at sz s = Some e"
  shows "engine_at sz t = Some e"
proof -
  have "fix_get (m_fix t) sz = fix_get (m_fix s) sz \<or>
        (fix_get (m_fix s) sz = None \<and> fix_get (m_fix t) sz = Some (mk_fixplex sz))"
    using assms(1) by (simp add: restored_def)
  then show ?thesis using assms(2) by (auto simp: engine_at_def split: option.splits if_splits)
qed

lemma restored_fix_set:
  assumes "restored s t"
  shows "restored (s\<lparr>m_fix := fix_set (m_fix s) sz b\<rparr>) (t\<lparr>m_fix := fix_set (m_fix t) sz b\<rparr>)"
  using assms unfolding restored_def by (auto simp: fix_get_fix_set)

lemma on_fixplex_mono:
  assumes "restored s t" "on_fixplex sz f s = Inr s1"
  shows "\<exists>t1. on_fixplex sz f t = Inr t1 \<and> restored s1 t1"
proof -
  obtain e e' where e: "engine_at sz s = Some e" "f e = Inr e'"
    "s1 = s\<lparr>m_fix := fix_set (m_fix s) sz (Some e')\<rparr>"
    using assms(2) unfolding on_fixplex_eq by (auto split: option.splits sum.splits)
  have "on_fixplex sz f t = Inr (t\<lparr>m_fix := fix_set (m_fix t) sz (Some e')\<rparr>)"
    unfolding on_fixplex_eq using restored_engine [OF assms(1) e(1)] e(2) by simp
  then show ?thesis using restored_fix_set [OF assms(1)] e(3) by blast
qed

lemma restored_rows:
  "restored s t \<Longrightarrow> restored (s\<lparr>m_rows := rs\<rparr>) (t\<lparr>m_rows := rs\<rparr>)"
  unfolding restored_def by simp

lemma restored_trail:
  "restored s t \<Longrightarrow> restored (s\<lparr>m_trail := tr\<rparr>) (t\<lparr>m_trail := tr\<rparr>)"
  unfolding restored_def by simp

lemma undo_entry_mono:
  assumes r: "restored s t" and u: "undo_entry e s = Inr s2"
  shows "\<exists>t2. undo_entry e t = Inr t2 \<and> restored s2 t2"
proof -
  have rows: "m_rows t = m_rows s" and mons: "m_monomials t = m_monomials s"
    and tab: "m_mono2var t = m_mono2var s"
    using r by (simp_all add: restored_def)
  obtain k where k: "m_sz2num_vars t = m_sz2num_vars s @ replicate k 0"
    using r by (auto simp: restored_def)
  show ?thesis
  proof (cases e)
    case inc_level_i
    then show ?thesis using r u by (simp add: undo_entry_def)
  next
    case add_var_i
    then obtain v sz rs where a: "m_rows s = (v, sz) # rs" "sz < length (m_sz2num_vars s)"
      "s2 = s\<lparr>m_sz2num_vars := (m_sz2num_vars s)[sz := m_sz2num_vars s ! sz - 1], m_rows := rs\<rparr>"
      using u by (auto simp: undo_entry_def split: list.splits if_splits)
    have "undo_entry e t = Inr (t\<lparr>m_sz2num_vars := (m_sz2num_vars t)[sz := m_sz2num_vars t ! sz - 1], m_rows := rs\<rparr>)"
      using add_var_i a rows k by (simp add: undo_entry_def)
    moreover have "restored s2 (t\<lparr>m_sz2num_vars := (m_sz2num_vars t)[sz := m_sz2num_vars t ! sz - 1], m_rows := rs\<rparr>)"
      using r a k unfolding restored_def
      by (auto simp: list_update_append1 nth_append)
    ultimately show ?thesis by blast
  next
    case add_mono_i
    then obtain m ms where a: "m_monomials s = m # ms"
      "s2 = s\<lparr>m_mono2var := (m_mono2var s)((mi_sz m, mi_vars m) := None), m_monomials := ms\<rparr>"
      using u by (auto simp: undo_entry_def split: list.splits)
    have "undo_entry e t = Inr (t\<lparr>m_mono2var := (m_mono2var t)((mi_sz m, mi_vars m) := None), m_monomials := ms\<rparr>)"
      using add_mono_i a mons by (simp add: undo_entry_def)
    moreover have "restored s2 (t\<lparr>m_mono2var := (m_mono2var t)((mi_sz m, mi_vars m) := None), m_monomials := ms\<rparr>)"
      using r a unfolding restored_def by auto
    ultimately show ?thesis by blast
  next
    case set_bound_i
    then obtain v sz rs s1 where a: "m_rows s = (v, sz) # rs"
      "on_fixplex sz restore_bound s = Inr s1" "s2 = s1\<lparr>m_rows := rs\<rparr>"
      using u by (auto simp: undo_entry_def split: list.splits sum.splits)
    obtain t1 where t1: "on_fixplex sz restore_bound t = Inr t1" "restored s1 t1"
      using on_fixplex_mono [OF r a(2)] by blast
    have "undo_entry e t = Inr (t1\<lparr>m_rows := rs\<rparr>)"
      using set_bound_i a rows t1 by (simp add: undo_entry_def)
    then show ?thesis using restored_rows [OF t1(2)] a(3) by blast
  next
    case add_row_i
    then obtain v sz rs s1 where a: "m_rows s = (v, sz) # rs"
      "on_fixplex sz (del_row v) s = Inr s1" "s2 = s1\<lparr>m_rows := rs\<rparr>"
      using u by (auto simp: undo_entry_def split: list.splits sum.splits)
    obtain t1 where t1: "on_fixplex sz (del_row v) t = Inr t1" "restored s1 t1"
      using on_fixplex_mono [OF r a(2)] by blast
    have "undo_entry e t = Inr (t1\<lparr>m_rows := rs\<rparr>)"
      using add_row_i a rows t1 by (simp add: undo_entry_def)
    then show ?thesis using restored_rows [OF t1(2)] a(3) by blast
  next
    case add_ineq_i
    then obtain v sz rs s1 where a: "m_rows s = (v, sz) # rs"
      "on_fixplex sz restore_ineq s = Inr s1" "s2 = s1\<lparr>m_rows := rs\<rparr>"
      using u by (auto simp: undo_entry_def split: list.splits sum.splits)
    obtain t1 where t1: "on_fixplex sz restore_ineq t = Inr t1" "restored s1 t1"
      using on_fixplex_mono [OF r a(2)] by blast
    have "undo_entry e t = Inr (t1\<lparr>m_rows := rs\<rparr>)"
      using add_ineq_i a rows t1 by (simp add: undo_entry_def)
    then show ?thesis using restored_rows [OF t1(2)] a(3) by blast
  qed
qed

lemma undo_list_mono:
  "restored s t \<Longrightarrow> undo_list es rest s = Inr s2 \<Longrightarrow>
     \<exists>t2. undo_list es rest t = Inr t2 \<and> restored s2 t2"
proof (induction es arbitrary: s t)
  case Nil
  then show ?case by simp
next
  case (Cons e es)
  obtain s1 where s1: "undo_entry e s = Inr s1" "undo_list es rest (s1\<lparr>m_trail := es @ rest\<rparr>) = Inr s2"
    using Cons.prems(2) by (auto split: sum.splits)
  obtain t1 where t1: "undo_entry e t = Inr t1" "restored s1 t1"
    using undo_entry_mono [OF Cons.prems(1) s1(1)] by blast
  from Cons.IH [OF restored_trail [OF t1(2)] s1(2)] t1(1) show ?case by simp
qed

lemma undo_list_append:
  "undo_list (xs @ ys) rest s =
     (case undo_list xs (ys @ rest) s of Inl e \<Rightarrow> Inl e | Inr s' \<Rightarrow> undo_list ys rest s')"
  by (induction xs arbitrary: s) (auto split: sum.splits)

lemma markers_simps [simp]:
  "markers [] = 0"
  "markers (inc_level_i # tr) = Suc (markers tr)"
  "e \<noteq> inc_level_i \<Longrightarrow> markers (e # tr) = markers tr"
  "markers (xs @ ys) = markers xs + markers ys"
  by (simp_all add: markers_def)

lemma reaches_refl: "reaches 0 s s"
  unfolding reaches_def using restored_refl by (intro exI [of _ "[]"]) simp

lemma reaches_trans:
  assumes "reaches k s t" "reaches j t u"
  shows "reaches (k + j) s u"
proof -
  obtain new1 t' where 1: "m_trail t = new1 @ m_trail s" "markers new1 = k"
    "undo_list new1 (m_trail s) t = Inr t'" "restored s t'"
    using assms(1) unfolding reaches_def by blast
  obtain new2 u' where 2: "m_trail u = new2 @ m_trail t" "markers new2 = j"
    "undo_list new2 (m_trail t) u = Inr u'" "restored t u'"
    using assms(2) unfolding reaches_def by blast
  obtain u2 where u2: "undo_list new1 (m_trail s) u' = Inr u2" "restored t' u2"
    using undo_list_mono [OF 2(4) 1(3)] by blast
  have "undo_list (new2 @ new1) (m_trail s) u = Inr u2"
    using 2(3) u2(1) 1(1) by (simp add: undo_list_append)
  moreover have "m_trail u = (new2 @ new1) @ m_trail s" using 1(1) 2(1) by simp
  moreover have "markers (new2 @ new1) = k + j" using 1(2) 2(2) by simp
  moreover have "restored s u2" using restored_trans [OF 1(4) u2(2)] .
  ultimately show ?thesis unfolding reaches_def by blast
qed

lemma restored_reaches: "restored s t \<Longrightarrow> reaches 0 s t"
  unfolding reaches_def by (intro exI [of _ "[]"]) (simp add: restored_def)

subsection \<open>Every operation can be undone\<close>

lemma reserve_length: "n \<le> length (reserve xs n d)"
  by (simp add: reserve_def)

lemma reaches_fresh_var: "reaches 0 s (snd (fresh_var sz s))"
proof -
  let ?xs = "reserve (m_sz2num_vars s) (sz + 1) 0"
  let ?t = "snd (fresh_var sz s)"
  have t: "?t = s\<lparr>m_sz2num_vars := ?xs[sz := ?xs ! sz + 1], m_trail := add_var_i # m_trail s,
                   m_rows := (0, sz) # m_rows s\<rparr>"
    by (simp add: fresh_var_def Let_def)
  have l: "sz < length ?xs" using reserve_length [of "sz + 1" "m_sz2num_vars s" 0] by simp
  have u: "undo_entry add_var_i ?t = Inr (?t\<lparr>m_sz2num_vars := ?xs, m_rows := m_rows s\<rparr>)"
    unfolding t using l by (simp add: undo_entry_def)
  have "undo_list [add_var_i] (m_trail s) ?t = Inr (s\<lparr>m_sz2num_vars := ?xs\<rparr>)"
    using u unfolding t by simp
  moreover have "restored s (s\<lparr>m_sz2num_vars := ?xs\<rparr>)"
    unfolding restored_def reserve_def by auto
  moreover have "m_trail ?t = [add_var_i] @ m_trail s" unfolding t by simp
  ultimately show ?thesis unfolding reaches_def
    by (intro exI [of _ "[add_var_i]"] exI [of _ "s\<lparr>m_sz2num_vars := ?xs\<rparr>"]) simp
qed

lemma fresh_var_fields:
  "m_mono2var (snd (fresh_var sz s)) = m_mono2var s"
  "m_monomials (snd (fresh_var sz s)) = m_monomials s"
  "m_fix (snd (fresh_var sz s)) = m_fix s"
  "ls_size (snd (fresh_var sz s)) = ls_size s"
  by (simp_all add: fresh_var_def Let_def)

lemma reaches_mono2var: "reaches 0 s (snd (mono2var sz vs s))"
proof (cases "m_mono2var s (sz, vs)")
  case (Some m1)
  then show ?thesis using reaches_refl by (simp add: mono2var_def)
next
  case None
  obtain v s1 where f: "fresh_var sz s = (v, s1)" by (cases "fresh_var sz s")
  let ?m = "\<lparr>mi_sz = sz, mi_vars = vs, mi_var = v\<rparr>"
  let ?t = "s1\<lparr>m_mono2var := (m_mono2var s1)((sz, vs) \<mapsto> ?m), m_monomials := ?m # m_monomials s1,
               m_trail := add_mono_i # m_trail s1\<rparr>"
  have t: "snd (mono2var sz vs s) = ?t" using None f by (simp add: mono2var_def)
  have n1: "m_mono2var s1 (sz, vs) = None" using None f fresh_var_fields(1) [of sz s] by simp
  have "undo_entry add_mono_i ?t = Inr (?t\<lparr>m_mono2var := m_mono2var s1, m_monomials := m_monomials s1\<rparr>)"
    using n1 by (simp add: undo_entry_def fun_upd_idem)
  then have "undo_list [add_mono_i] (m_trail s1) ?t = Inr s1" by simp
  then have "reaches 0 s1 ?t" unfolding reaches_def using restored_refl
    by (intro exI [of _ "[add_mono_i]"] exI [of _ s1]) simp
  moreover have "reaches 0 s s1" using reaches_fresh_var [of s sz] f by simp
  ultimately show ?thesis using reaches_trans [of 0 s s1 0 ?t] t by simp
qed

lemma undo_pairs:
  "fp_set_bounds v l h e = Inr e' \<Longrightarrow> restore_bound e' = Inr e"
  "fp_set_value v x e = Inr e' \<Longrightarrow> restore_bound e' = Inr e"
  "add_le v w e = Inr e' \<Longrightarrow> restore_ineq e' = Inr e"
  "add_lt v w e = Inr e' \<Longrightarrow> restore_ineq e' = Inr e"
  "add_row v vs cs e = Inr e' \<Longrightarrow> del_row v e' = Inr e"
  by (auto simp: fp_set_bounds_def fp_set_value_def add_le_def add_lt_def add_row_def
        restore_bound_def restore_ineq_def del_row_def)

lemma restored_engine_back:
  assumes "engine_at sz s = Some e"
  shows "restored s (s\<lparr>m_fix := fix_set (fix_set (m_fix s) sz b) sz (Some e)\<rparr>)"
  using assms unfolding restored_def
  by (auto simp: fix_get_fix_set engine_at_def intro!: exI [of _ 0] split: option.splits if_splits)

lemma reaches_engine_core:
  assumes e: "engine_at sz s = Some e" and f: "f e = Inr e'" and g: "g e' = Inr e"
    and k: "k \<noteq> inc_level_i"
    and u: "\<And>t rs. m_rows t = (v, sz) # rs \<Longrightarrow>
              undo_entry k t = (case on_fixplex sz g t of Inl x \<Rightarrow> Inl x | Inr s1 \<Rightarrow> Inr (s1\<lparr>m_rows := rs\<rparr>))"
  shows "reaches 0 s (s\<lparr>m_fix := fix_set (m_fix s) sz (Some e'), m_trail := k # m_trail s,
                         m_rows := (v, sz) # m_rows s\<rparr>)"
proof -
  let ?t = "s\<lparr>m_fix := fix_set (m_fix s) sz (Some e'), m_trail := k # m_trail s,
               m_rows := (v, sz) # m_rows s\<rparr>"
  let ?b = "s\<lparr>m_fix := fix_set (fix_set (m_fix s) sz (Some e')) sz (Some e)\<rparr>"
  have ea: "engine_at sz ?t = Some e'" by (simp add: engine_at_def fix_get_fix_set)
  have "on_fixplex sz g ?t = Inr (?t\<lparr>m_fix := fix_set (fix_set (m_fix s) sz (Some e')) sz (Some e)\<rparr>)"
    unfolding on_fixplex_eq ea using g by simp
  then have "undo_entry k ?t = Inr (?t\<lparr>m_fix := fix_set (fix_set (m_fix s) sz (Some e')) sz (Some e),
                                       m_rows := m_rows s\<rparr>)"
    using u [of ?t "m_rows s"] by simp
  then have "undo_list [k] (m_trail s) ?t = Inr ?b" by simp
  moreover have "restored s ?b" using restored_engine_back [OF e] .
  moreover have "markers [k] = 0" using k by simp
  ultimately show ?thesis unfolding reaches_def
    by (intro exI [of _ "[k]"] exI [of _ ?b]) simp
qed

lemma undo_forms:
  "m_rows t = (v, sz) # rs \<Longrightarrow>
     undo_entry set_bound_i t = (case on_fixplex sz restore_bound t of Inl x \<Rightarrow> Inl x | Inr s1 \<Rightarrow> Inr (s1\<lparr>m_rows := rs\<rparr>))"
  "m_rows t = (v, sz) # rs \<Longrightarrow>
     undo_entry add_ineq_i t = (case on_fixplex sz restore_ineq t of Inl x \<Rightarrow> Inl x | Inr s1 \<Rightarrow> Inr (s1\<lparr>m_rows := rs\<rparr>))"
  "m_rows t = (v, sz) # rs \<Longrightarrow>
     undo_entry add_row_i t = (case on_fixplex sz (del_row v) t of Inl x \<Rightarrow> Inl x | Inr s1 \<Rightarrow> Inr (s1\<lparr>m_rows := rs\<rparr>))"
  by (simp_all add: undo_entry_def)

text \<open>The engine is called after the trail and the rows have been pushed.\<close>

lemma reaches_bound_pushed:
  assumes "on_fixplex sz f (push_bound v sz s) = Inr t"
    and "\<And>e e'. f e = Inr e' \<Longrightarrow> restore_bound e' = Inr e"
  shows "reaches 0 s t"
proof -
  have ea: "engine_at sz (push_bound v sz s) = engine_at sz s"
    by (simp add: engine_at_def push_bound_def)
  obtain e e' where e: "engine_at sz s = Some e" "f e = Inr e'"
    "t = (push_bound v sz s)\<lparr>m_fix := fix_set (m_fix (push_bound v sz s)) sz (Some e')\<rparr>"
    using assms(1) unfolding on_fixplex_eq ea by (auto split: option.splits sum.splits)
  have "t = s\<lparr>m_fix := fix_set (m_fix s) sz (Some e'), m_trail := set_bound_i # m_trail s,
              m_rows := (v, sz) # m_rows s\<rparr>"
    using e(3) by (simp add: push_bound_def)
  moreover have "reaches 0 s (s\<lparr>m_fix := fix_set (m_fix s) sz (Some e'), m_trail := set_bound_i # m_trail s,
              m_rows := (v, sz) # m_rows s\<rparr>)"
    by (rule reaches_engine_core [where e = e and f = f and g = restore_bound])
       (simp_all add: e assms(2) [OF e(2)] undo_forms(1))
  ultimately show ?thesis by simp
qed

text \<open>The engine is called before the trail and the rows are pushed.\<close>

lemma reaches_engine_then_push:
  assumes "on_fixplex sz f s = Inr s1"
    and "\<And>e e'. f e = Inr e' \<Longrightarrow> g e' = Inr e"
    and "k \<noteq> inc_level_i"
    and "\<And>t rs. m_rows t = (v, sz) # rs \<Longrightarrow>
              undo_entry k t = (case on_fixplex sz g t of Inl x \<Rightarrow> Inl x | Inr s1 \<Rightarrow> Inr (s1\<lparr>m_rows := rs\<rparr>))"
  shows "reaches 0 s (s1\<lparr>m_trail := k # m_trail s1, m_rows := (v, sz) # m_rows s1\<rparr>)"
proof -
  obtain e e' where e: "engine_at sz s = Some e" "f e = Inr e'"
    "s1 = s\<lparr>m_fix := fix_set (m_fix s) sz (Some e')\<rparr>"
    using assms(1) unfolding on_fixplex_eq by (auto split: option.splits sum.splits)
  have "s1\<lparr>m_trail := k # m_trail s1, m_rows := (v, sz) # m_rows s1\<rparr>
         = s\<lparr>m_fix := fix_set (m_fix s) sz (Some e'), m_trail := k # m_trail s,
              m_rows := (v, sz) # m_rows s\<rparr>"
    using e(3) by simp
  moreover have "reaches 0 s (s\<lparr>m_fix := fix_set (m_fix s) sz (Some e'), m_trail := k # m_trail s,
              m_rows := (v, sz) # m_rows s\<rparr>)"
    by (rule reaches_engine_core [where e = e and f = f and g = g])
       (simp_all add: e assms(2) [OF e(2)] assms(3) assms(4))
  ultimately show ?thesis by simp
qed

lemma restored_sz2fixplex: "sz2fixplex sz s = Inr s1 \<Longrightarrow> restored s s1"
  unfolding sz2fixplex_eq restored_def
  by (auto simp: fix_get_fix_set engine_at_def intro!: exI [of _ 0] split: option.splits if_splits)

lemma restored_scratch:
  "restored s (s\<lparr>m_vars := xs\<rparr>)"
  "restored s (s\<lparr>m_coeffs := cs\<rparr>)"
  "restored s (s\<lparr>m_vars := xs, m_coeffs := cs\<rparr>)"
  "restored s (s\<lparr>m_bool_var2row := bs\<rparr>)"
  unfolding restored_def by (auto intro!: exI [of _ 0])

lemma reaches0_trans: "reaches 0 s t \<Longrightarrow> reaches 0 t u \<Longrightarrow> reaches 0 s u"
  using reaches_trans [of 0 s t 0 u] by simp

lemma reaches_pvar2var: "reaches 0 s (snd (pvar2var sz v s))"
  by (simp add: pvar2var_def reaches_mono2var)

lemma reaches_linearize_loop: "reaches 0 s (linearize_loop sz ms s)"
proof (induction ms arbitrary: s)
  case Nil
  then show ?case by (simp add: reaches_refl)
next
  case (Cons m ms)
  obtain v s1 where a: "mono2var sz (snd m) s = (v, s1)" by (cases "mono2var sz (snd m) s")
  let ?s2 = "s1\<lparr>m_vars := m_vars s1 @ [v], m_coeffs := m_coeffs s1 @ [fst m]\<rparr>"
  have 1: "reaches 0 s s1" using reaches_mono2var [of s sz "snd m"] a by simp
  have 2: "reaches 0 s1 ?s2" using restored_reaches [OF restored_scratch(3)] .
  have 3: "reaches 0 ?s2 (linearize_loop sz ms ?s2)" using Cons.IH .
  show ?case using reaches0_trans [OF reaches0_trans [OF 1 2] 3] a by simp
qed

lemma reaches_linearize: "reaches 0 s (linearize p s)"
  unfolding linearize_def
  using reaches0_trans [OF restored_reaches [OF restored_scratch(3)] reaches_linearize_loop] .

lemma reaches_internalize_pdd:
  assumes "internalize_pdd p s = Inr (v, t)"
  shows "reaches 0 s t"
proof -
  let ?sz = "power_of_2 p"
  let ?s1 = "linearize p s"
  have 1: "reaches 0 s ?s1" by (rule reaches_linearize)
  show ?thesis
  proof (cases "length (m_vars ?s1) = 1 \<and> last (m_coeffs ?s1) = 1")
    case True
    then have "internalize_pdd p s = Inr (last (m_vars ?s1), ?s1)"
      unfolding internalize_pdd_def Let_def by simp
    then have "t = ?s1" using assms by simp
    then show ?thesis using 1 by simp
  next
    case False
    obtain w s2 where f: "fresh_var ?sz ?s1 = (w, s2)" by (cases "fresh_var ?sz ?s1")
    let ?s3 = "s2\<lparr>m_vars := m_vars s2 @ [w], m_coeffs := m_coeffs s2 @ [2 ^ ?sz - 1]\<rparr>"
    have eq: "internalize_pdd p s =
        (case on_fixplex ?sz (add_row w (m_vars s2 @ [w]) (m_coeffs s2 @ [2 ^ ?sz - 1])) ?s3 of
           Inl e \<Rightarrow> Inl e
         | Inr s4 \<Rightarrow> Inr (w, s4\<lparr>m_rows := (w, ?sz) # m_rows s4, m_trail := add_row_i # m_trail s4\<rparr>))"
      unfolding internalize_pdd_def Let_def by (simp only: False if_False f prod.case)
    define r where "r = on_fixplex ?sz (add_row w (m_vars s2 @ [w]) (m_coeffs s2 @ [2 ^ ?sz - 1])) ?s3"
    have c: "(case r of Inl e \<Rightarrow> Inl e
              | Inr s4 \<Rightarrow> Inr (w, s4\<lparr>m_rows := (w, ?sz) # m_rows s4, m_trail := add_row_i # m_trail s4\<rparr>))
             = Inr (v, t)"
      using assms eq unfolding r_def by simp
    obtain s4 where o': "r = Inr s4" using c by (cases r) simp_all
    have "Inr (w, s4\<lparr>m_rows := (w, ?sz) # m_rows s4, m_trail := add_row_i # m_trail s4\<rparr>)
            = (Inr (v, t) :: error + var_t \<times> linear_solver)"
      using c unfolding o' by (simp only: sum.case)
    then have t: "t = s4\<lparr>m_rows := (w, ?sz) # m_rows s4, m_trail := add_row_i # m_trail s4\<rparr>"
      by blast
    note o = o' [unfolded r_def]
    have 2: "reaches 0 ?s1 s2" using reaches_fresh_var [of ?s1 ?sz] f by simp
    have 3: "reaches 0 s2 ?s3" using restored_reaches [OF restored_scratch(3)] .
    have 4: "reaches 0 ?s3 (s4\<lparr>m_trail := add_row_i # m_trail s4, m_rows := (w, ?sz) # m_rows s4\<rparr>)"
      by (rule reaches_engine_then_push [OF o, where g = "del_row w"])
         (simp_all add: undo_pairs(5) undo_forms(3))
    have "s4\<lparr>m_trail := add_row_i # m_trail s4, m_rows := (w, ?sz) # m_rows s4\<rparr> = t"
      using t by simp
    then show ?thesis using reaches0_trans [OF reaches0_trans [OF reaches0_trans [OF 1 2] 3] 4] by simp
  qed
qed

lemma reaches_new_eq: "new_eq bvar p s = Inr t \<Longrightarrow> reaches 0 s t"
  using reaches_internalize_pdd restored_reaches [OF restored_scratch(4)] reaches0_trans
  by (auto simp: new_eq_def split: sum.splits) blast

lemma reaches_new_le:
  assumes "new_le bvar lhs rhs s = Inr t"
  shows "reaches 0 s t"
proof -
  obtain v s1 w s2 where a: "internalize_pdd lhs s = Inr (v, s1)" "internalize_pdd rhs s1 = Inr (w, s2)"
    "t = s2\<lparr>m_bool_var2row := setx (m_bool_var2row s2) bvar (v, w) (v, w)\<rparr>"
    using assms by (auto simp: new_le_def split: sum.splits)
  show ?thesis unfolding a(3)
    using reaches0_trans [OF reaches0_trans [OF reaches_internalize_pdd [OF a(1)]
        reaches_internalize_pdd [OF a(2)]] restored_reaches [OF restored_scratch(4)]] .
qed

lemma reaches_assert_eq:
  assumes "assert_eq bvar sign p s = Inr t"
  shows "reaches 0 s t"
proof -
  let ?v = "fst (m_bool_var2row s ! bvar)"
  obtain s1 where a: "sz2fixplex (power_of_2 p) s = Inr s1"
    "on_fixplex (power_of_2 p)
       (if sign = l_true then fp_set_bounds ?v 0 0 else fp_set_bounds ?v 1 0)
       (push_bound ?v (power_of_2 p) s1) = Inr t"
    using assms by (auto simp: assert_eq_def split: sum.splits if_splits)
  have "reaches 0 s1 t"
    by (rule reaches_bound_pushed [OF a(2)]) (auto simp: undo_pairs(1) split: if_splits)
  then show ?thesis
    using reaches0_trans [OF restored_reaches [OF restored_sz2fixplex [OF a(1)]]] by blast
qed

lemma reaches_bound_after:
  assumes "on_fixplex sz f s = Inr s2" "\<And>e e'. f e = Inr e' \<Longrightarrow> restore_bound e' = Inr e"
  shows "reaches 0 s (push_bound v sz s2)"
proof -
  have "reaches 0 s (s2\<lparr>m_trail := set_bound_i # m_trail s2, m_rows := (v, sz) # m_rows s2\<rparr>)"
    by (rule reaches_engine_then_push [OF assms(1), where g = restore_bound])
       (simp_all add: assms(2) undo_forms(1))
  then show ?thesis by (simp add: push_bound_def)
qed

lemma reaches_assert_le:
  assumes "assert_le bvar sign lhs rhs s = Inr t"
  shows "reaches 0 s t"
proof -
  let ?sz = "power_of_2 lhs"
  obtain v w where vw: "m_bool_var2row s ! bvar = (v, w)" by (cases "m_bool_var2row s ! bvar")
  obtain s1 where s1: "sz2fixplex ?sz s = Inr s1"
    using assms vw by (auto simp: assert_le_def split: sum.splits if_splits)
  note r1 = restored_reaches [OF restored_sz2fixplex [OF s1]]
  have "reaches 0 s1 t"
  proof (cases "is_val rhs")
    case True
    then obtain f s2 where a: "on_fixplex ?sz f s1 = Inr s2" "t = push_bound v ?sz s2"
      "f = fp_set_bounds v 0 (val rhs) \<or> f = fp_set_bounds v (val rhs + 1) 0"
      using assms vw s1 by (auto simp: assert_le_def Let_def split: sum.splits if_splits)
    show ?thesis unfolding a(2)
      by (rule reaches_bound_after [OF a(1)]) (use a(3) undo_pairs(1) in auto)
  next
    case False
    show ?thesis
    proof (cases "is_val lhs")
      case True
      then obtain f s2 where a: "on_fixplex ?sz f s1 = Inr s2" "t = push_bound w ?sz s2"
        "f = fp_set_bounds w (val lhs) 0 \<or> f = fp_set_bounds w 0 (val lhs - 1)"
        using assms vw s1 False by (auto simp: assert_le_def Let_def split: sum.splits if_splits)
      show ?thesis unfolding a(2)
        by (rule reaches_bound_after [OF a(1)]) (use a(3) undo_pairs(1) in auto)
    next
      case lv: False
      then obtain f s2 where a: "on_fixplex ?sz f s1 = Inr s2"
        "t = s2\<lparr>m_trail := add_ineq_i # m_trail s2, m_rows := (v, ?sz) # m_rows s2\<rparr>"
        "f = add_le v w \<or> f = add_lt w v"
        using assms vw s1 False by (auto simp: assert_le_def Let_def split: sum.splits if_splits)
      show ?thesis unfolding a(2)
        by (rule reaches_engine_then_push [OF a(1), where g = restore_ineq])
           (use a(3) undo_pairs(3,4) undo_forms(2) in auto)
    qed
  qed
  then show ?thesis using reaches0_trans [OF r1] by blast
qed

lemma reaches_set_value:
  assumes "set_value v x s = Inr t"
  shows "reaches 0 s t"
proof -
  let ?sz = "ls_size s v"
  obtain s1 w s2 where a: "sz2fixplex ?sz s = Inr s1" "pvar2var ?sz v s1 = (w, s2)"
    "on_fixplex ?sz (fp_set_value w x) (push_bound w ?sz s2) = Inr t"
    using assms by (auto simp: set_value_def split: sum.splits prod.splits)
  have 1: "reaches 0 s s1" using restored_reaches [OF restored_sz2fixplex [OF a(1)]] .
  have 2: "reaches 0 s1 s2" using reaches_pvar2var [of s1 ?sz v] a(2) by simp
  have 3: "reaches 0 s2 t"
    by (rule reaches_bound_pushed [OF a(3)]) (simp add: undo_pairs(2))
  show ?thesis using reaches0_trans [OF reaches0_trans [OF 1 2] 3] .
qed

lemma reaches_set_bound:
  assumes "set_bound v l h s = Inr t"
  shows "reaches 0 s t"
proof -
  let ?sz = "ls_size s v"
  obtain s1 w s2 where a: "sz2fixplex ?sz s = Inr s1" "pvar2var ?sz v s1 = (w, s2)"
    "on_fixplex ?sz (fp_set_bounds w l h) (push_bound w ?sz s2) = Inr t"
    using assms by (auto simp: set_bound_def split: sum.splits prod.splits)
  have 1: "reaches 0 s s1" using restored_reaches [OF restored_sz2fixplex [OF a(1)]] .
  have 2: "reaches 0 s1 s2" using reaches_pvar2var [of s1 ?sz v] a(2) by simp
  have 3: "reaches 0 s2 t"
    by (rule reaches_bound_pushed [OF a(3)]) (simp add: undo_pairs(1))
  show ?thesis using reaches0_trans [OF reaches0_trans [OF 1 2] 3] .
qed

lemma reaches_new_constraint: "new_constraint c s = Inr t \<Longrightarrow> reaches 0 s t"
  by (cases c) (auto simp: new_constraint_def reaches_new_eq reaches_new_le)

lemma reaches_activate_constraint: "activate_constraint c s = Inr t \<Longrightarrow> reaches 0 s t"
  by (cases c) (auto simp: activate_constraint_def reaches_assert_eq reaches_assert_le split: if_splits)

lemma reaches_push: "reaches 1 s (push s)"
proof -
  have "undo_list [inc_level_i] (m_trail s) (push s) = Inr s"
    by (simp add: undo_entry_def push_def)
  then show ?thesis unfolding reaches_def using restored_refl
    by (intro exI [of _ "[inc_level_i]"] exI [of _ s]) (simp add: push_def)
qed

subsection \<open>pop undoes exactly the entries above the n-th marker\<close>

lemma pop_loop_prefix:
  "n \<le> markers new \<Longrightarrow> m_trail t = new @ base \<Longrightarrow> pop_loop n (new @ base) t = Inr t' \<Longrightarrow>
     \<exists>pre post. new = pre @ post \<and> markers post = markers new - n \<and> m_trail t' = post @ base \<and>
        undo_list pre (post @ base) t = Inr t'"
proof (induction new arbitrary: n t)
  case Nil
  then show ?case by simp
next
  case (Cons e es)
  show ?case
  proof (cases n)
    case 0
    then have "t' = t" using Cons.prems(3) by simp
    then show ?thesis using 0 Cons.prems(2)
      by (intro exI [of _ "[]"] exI [of _ "e # es"]) simp
  next
    case (Suc n')
    obtain t1 where t1: "undo_entry e t = Inr t1"
      "pop_loop (if e = inc_level_i then n' else Suc n') (es @ base) (t1\<lparr>m_trail := es @ base\<rparr>) = Inr t'"
      using Cons.prems(3) Suc by (auto split: sum.splits)
    let ?n = "if e = inc_level_i then n' else Suc n'"
    have le: "?n \<le> markers es" using Cons.prems(1) Suc by (cases "e = inc_level_i") simp_all
    have mk: "markers (e # es) - n = markers es - ?n" using Suc by (cases "e = inc_level_i") simp_all
    have tr: "m_trail (t1\<lparr>m_trail := es @ base\<rparr>) = es @ base" by simp
    obtain pre post where p: "es = pre @ post" "markers post = markers es - ?n"
      "m_trail t' = post @ base" "undo_list pre (post @ base) (t1\<lparr>m_trail := es @ base\<rparr>) = Inr t'"
      using Cons.IH [OF le tr t1(2)] by blast
    have "undo_list (e # pre) (post @ base) t = Inr t'" using t1(1) p(1,4) by simp
    then show ?thesis using p mk
      by (intro exI [of _ "e # pre"] exI [of _ post]) simp
  qed
qed

lemma reaches_pop:
  assumes "reaches k s t" "n \<le> k" "pop n t = Inr t'"
  shows "reaches (k - n) s t'"
proof -
  obtain new t2 where r: "m_trail t = new @ m_trail s" "markers new = k"
    "undo_list new (m_trail s) t = Inr t2" "restored s t2"
    using assms(1) unfolding reaches_def by blast
  have pl: "pop_loop n (new @ m_trail s) t = Inr t'" using assms(3) r(1) by (simp add: pop_def)
  have le: "n \<le> markers new" using assms(2) r(2) by simp
  obtain pre post where p: "new = pre @ post" "markers post = markers new - n"
    "m_trail t' = post @ m_trail s" "undo_list pre (post @ m_trail s) t = Inr t'"
    using pop_loop_prefix [OF le r(1) pl] by blast
  have "undo_list post (m_trail s) t' = Inr t2"
    using r(3) p(4) unfolding p(1) by (simp add: undo_list_append)
  then show ?thesis unfolding reaches_def using p(2,3) r(2,4) by blast
qed

lemma pop_loop_all:
  "markers new = k \<Longrightarrow>
     pop_loop (Suc k) (new @ inc_level_i # tr0) t =
       (case undo_list new (inc_level_i # tr0) t of
          Inl e \<Rightarrow> Inl e
        | Inr t' \<Rightarrow> Inr (t'\<lparr>m_trail := tr0\<rparr>))"
proof (induction new arbitrary: k t)
  case Nil
  then show ?case by (simp add: undo_entry_def)
next
  case (Cons e es)
  show ?case
  proof (cases "e = inc_level_i")
    case True
    then obtain k' where k: "k = Suc k'" "markers es = k'" using Cons.prems by simp
    show ?thesis using True k Cons.IH [OF k(2)] by (simp split: sum.splits)
  next
    case False
    then have "markers es = k" using Cons.prems by simp
    then show ?thesis using False Cons.IH by (simp split: sum.splits)
  qed
qed

lemma apply_op_reaches:
  assumes "apply_op x s = Inr t" "x \<noteq> Push" "\<And>n. x \<noteq> Pop n"
  shows "reaches 0 s t"
proof (cases x)
  case (Internalize_pdd p)
  then obtain v where "internalize_pdd p s = Inr (v, t)"
    using assms(1) by (cases "internalize_pdd p s") auto
  then show ?thesis by (rule reaches_internalize_pdd)
qed (use assms in \<open>auto simp: reaches_new_constraint reaches_activate_constraint reaches_set_value
      reaches_set_bound reaches_mono2var reaches_pvar2var reaches_fresh_var\<close>)

lemma run_ops_reaches:
  "run_ops ops s = Inr t \<Longrightarrow> depth_after ops j = Some k \<Longrightarrow> reaches j s0 s \<Longrightarrow> reaches k s0 t"
proof (induction ops arbitrary: s j)
  case Nil
  then show ?case by simp
next
  case (Cons x xs)
  obtain s1 where s1: "apply_op x s = Inr s1" "run_ops xs s1 = Inr t"
    using Cons.prems(1) by (auto split: sum.splits)
  show ?case
  proof (cases "x = Push")
    case True
    have "reaches (j + 1) s0 s1" using reaches_trans [OF Cons.prems(3) reaches_push] s1(1) True by simp
    then show ?thesis using Cons.IH [OF s1(2), of "Suc j"] Cons.prems(2) True by simp
  next
    case np: False
    show ?thesis
    proof (cases "\<exists>n. x = Pop n")
      case True
      then obtain n where n: "x = Pop n" by blast
      have le: "n \<le> j" and d: "depth_after xs (j - n) = Some k"
        using Cons.prems(2) n by (simp_all split: if_splits)
      have "reaches (j - n) s0 s1" using reaches_pop [OF Cons.prems(3) le] s1(1) n by simp
      then show ?thesis using Cons.IH [OF s1(2) d] by simp
    next
      case False
      then have "reaches 0 s s1" using apply_op_reaches [OF s1(1) np] by blast
      then have r: "reaches j s0 s1" using reaches_trans [OF Cons.prems(3)] by fastforce
      have "depth_after xs j = Some k" using Cons.prems(2) np False by (cases x) auto
      then show ?thesis using Cons.IH [OF s1(2) _ r] by simp
    qed
  qed
qed

lemma pop_restores:
  assumes "reaches k (push s) t"
  shows "\<exists>s'. pop (Suc k) t = Inr s' \<and> restored s s'"
proof -
  obtain new t2 where r: "m_trail t = new @ m_trail (push s)" "markers new = k"
    "undo_list new (m_trail (push s)) t = Inr t2" "restored (push s) t2"
    using assms unfolding reaches_def by blast
  have "pop (Suc k) t = Inr (t2\<lparr>m_trail := m_trail s\<rparr>)"
    using pop_loop_all [OF r(2), of "m_trail s" t] r(1,3) by (simp add: pop_def push_def)
  moreover have "restored s (t2\<lparr>m_trail := m_trail s\<rparr>)"
    using r(4) unfolding restored_def push_def by simp
  ultimately show ?thesis by blast
qed

subsection \<open>The interning table between pops\<close>

lemma undo_entry_table:
  assumes "undo_entry e t = Inr t'" "m_mono2var t' key = Some m"
  shows "m_mono2var t key = Some m"
proof (cases e)
  case add_mono_i
  then show ?thesis using assms
    by (auto simp: undo_entry_def split: list.splits if_splits)
qed (use assms in \<open>auto simp: undo_entry_def on_fixplex_eq split: list.splits if_splits sum.splits option.splits\<close>)

lemma undo_list_table:
  "undo_list es rest t = Inr t' \<Longrightarrow> m_mono2var t' key = Some m \<Longrightarrow> m_mono2var t key = Some m"
proof (induction es arbitrary: t)
  case Nil
  then show ?case by simp
next
  case (Cons e es)
  obtain t1 where t1: "undo_entry e t = Inr t1" "undo_list es rest (t1\<lparr>m_trail := es @ rest\<rparr>) = Inr t'"
    using Cons.prems(1) by (auto split: sum.splits)
  have "m_mono2var (t1\<lparr>m_trail := es @ rest\<rparr>) key = Some m"
    using Cons.IH [OF t1(2) Cons.prems(2)] .
  then show ?case using undo_entry_table [OF t1(1)] by simp
qed

lemma reaches_table:
  assumes "reaches k s t" "m_mono2var s key = Some m"
  shows "m_mono2var t key = Some m"
proof -
  obtain new t2 where r: "undo_list new (m_trail s) t = Inr t2" "restored s t2"
    using assms(1) unfolding reaches_def by blast
  have "m_mono2var t2 key = Some m" using r(2) assms(2) by (simp add: restored_def)
  then show ?thesis using undo_list_table [OF r(1)] by blast
qed

lemma mono2var_table:
  assumes "mono2var sz vs s = (x, s1)"
  shows "\<exists>m. m_mono2var s1 (sz, vs) = Some m \<and> mi_var m = x"
proof (cases "m_mono2var s (sz, vs)")
  case None
  then show ?thesis using assms
    by (auto simp: mono2var_def split: prod.splits)
next
  case (Some m1)
  then show ?thesis using assms by (auto simp: mono2var_def)
qed

subsection \<open>The trail of the viable domains\<close>

lemma conflict_if_empty_fields [simp]:
  "m_viable (conflict_if_empty v st) = m_viable st"
  "m_viable_trail (conflict_if_empty v st) = m_viable_trail st"
  "s_m_trail (conflict_if_empty v st) = s_m_trail st"
  by (simp_all add: conflict_if_empty_def set_conflict_def)

lemma push_viable_fields:
  assumes "push_viable v st = Inr st1"
  shows "v < length (m_viable st)" "m_viable st1 = m_viable st"
    "m_viable_trail st1 = (v, m_viable st ! v) # m_viable_trail st"
    "s_m_trail st1 = viable_i # s_m_trail st"
  using assms by (auto simp: push_viable_def split: if_splits)

lemma viable_op_pushes_one:
  assumes "apply_viable_op x st = Inr st'"
  shows "\<exists>v d. v < length (m_viable st) \<and> m_viable st' = (m_viable st)[v := d] \<and>
           m_viable_trail st' = (v, m_viable st ! v) # m_viable_trail st \<and>
           s_m_trail st' = viable_i # s_m_trail st"
proof (cases x)
  case (Intersect_eq a v b p)
  then obtain st1 where p1: "push_viable v st = Inr st1"
    using assms by (auto simp: viable_intersect_eq_def split: sum.splits)
  note f = push_viable_fields [OF p1]
  obtain d where "st' = conflict_if_empty v (st1\<lparr>m_viable := (m_viable st1)[v := d]\<rparr>)"
    using assms Intersect_eq p1
    by (auto simp: viable_intersect_eq_def Let_def split: sum.splits prod.splits)
  then show ?thesis using f by auto
next
  case (Intersect_ule v a b c d p)
  then obtain st1 where p1: "push_viable v st = Inr st1"
    using assms by (auto simp: viable_intersect_ule_def split: sum.splits)
  note f = push_viable_fields [OF p1]
  have "\<exists>d'. m_viable st' = (m_viable st1)[v := d'] \<and> m_viable_trail st' = m_viable_trail st1 \<and>
           s_m_trail st' = s_m_trail st1"
    using assms Intersect_ule p1
    by (auto simp: viable_intersect_ule_def Let_def split: prod.splits bool.splits nat.splits)
  then show ?thesis using f by auto
next
  case (Add_non_viable v val)
  then obtain st1 where p1: "push_viable v st = Inr st1"
    using assms by (auto simp: add_non_viable_def split: sum.splits)
  note f = push_viable_fields [OF p1]
  have "st' = conflict_if_empty v (st1\<lparr>m_viable := (m_viable st1)[v := set_ne val (m_viable st1 ! v)]\<rparr>)"
    using assms Add_non_viable p1 by (auto simp: add_non_viable_def)
  then show ?thesis using f by auto
qed

lemma pop_viable_n_Suc:
  "pop_viable_n (Suc n) st = (case pop_viable_n n st of Inl e \<Rightarrow> Inl e | Inr u \<Rightarrow> pop_viable u)"
proof (induction n arbitrary: st)
  case 0
  then show ?case by (simp split: sum.splits)
next
  case (Suc n)
  show ?case
  proof (cases "pop_viable st")
    case (Inl e)
    then show ?thesis by simp
  next
    case (Inr st1)
    then show ?thesis using Suc [of st1] by simp
  qed
qed

lemma viable_trail_exact:
  "run_viable_ops ops st = Inr st' \<Longrightarrow>
     s_m_trail st' = replicate (length ops) viable_i @ s_m_trail st \<and>
     (\<exists>u. pop_viable_n (length ops) st' = Inr u \<and> m_viable u = m_viable st \<and>
           m_viable_trail u = m_viable_trail st)"
proof (induction ops arbitrary: st)
  case Nil
  then show ?case by simp
next
  case (Cons x xs)
  obtain st1 where s1: "apply_viable_op x st = Inr st1" "run_viable_ops xs st1 = Inr st'"
    using Cons.prems by (auto split: sum.splits)
  obtain v d where o: "v < length (m_viable st)" "m_viable st1 = (m_viable st)[v := d]"
    "m_viable_trail st1 = (v, m_viable st ! v) # m_viable_trail st"
    "s_m_trail st1 = viable_i # s_m_trail st"
    using viable_op_pushes_one [OF s1(1)] by blast
  obtain u where u: "s_m_trail st' = replicate (length xs) viable_i @ s_m_trail st1"
    "pop_viable_n (length xs) st' = Inr u" "m_viable u = m_viable st1"
    "m_viable_trail u = m_viable_trail st1"
    using Cons.IH [OF s1(2)] by blast
  have "pop_viable u = Inr (u\<lparr>m_viable := (m_viable u)[v := m_viable st ! v],
                               m_viable_trail := m_viable_trail st\<rparr>)"
    using u(3,4) o by (simp add: pop_viable_def)
  moreover have "(m_viable u)[v := m_viable st ! v] = m_viable st"
    using u(3) o(1,2) by simp
  ultimately have "pop_viable_n (length (x # xs)) st' =
      Inr (u\<lparr>m_viable := m_viable st, m_viable_trail := m_viable_trail st\<rparr>)"
    using u(2) by (simp add: pop_viable_n_Suc del: pop_viable_n.simps)
  moreover have "s_m_trail st' = replicate (length (x # xs)) viable_i @ s_m_trail st"
    using u(1) o(4) by (simp add: replicate_app_Cons_same)
  ultimately show ?case by simp
qed

lemma restored_num_vars: "restored s t \<Longrightarrow> num_vars t sz = num_vars s sz"
  by (auto simp: restored_def num_vars_def nth_append)

text \<open>
  Claim C1. For every sequence of operations on the linear solver that follows a
  \<^verbatim>\<open>push()\<close> and whose own pops stay above it, \<^verbatim>\<open>pop\<close> of all levels still open succeeds and
  restores what the solver shows (\<open>restored\<close>): trail and rows, the variable counter of
  every width, the interning table and the monomials, and the rows, bounds and
  inequalities of every engine, an engine built inside the bracket being left as new.
  For the viable domains, every mutation pushes one entry on the solver's trail and one
  on the viable trail, and as many calls of \<^verbatim>\<open>pop_viable\<close> as entries were pushed give back
  every variable's domain and the viable trail exactly.
\<close>

theorem trail_exactness:
  assumes "run_ops ops (push s) = Inr t" "depth_after ops 0 = Some k"
    and "run_viable_ops vops vs = Inr vt"
  shows "(\<exists>s'. pop (Suc k) t = Inr s' \<and> restored s s' \<and> (\<forall>sz. num_vars s' sz = num_vars s sz))
    \<and> s_m_trail vt = replicate (length vops) viable_i @ s_m_trail vs
    \<and> (\<exists>vs'. pop_viable_n (length vops) vt = Inr vs' \<and> m_viable vs' = m_viable vs \<and>
              m_viable_trail vs' = m_viable_trail vs)"
proof -
  have "reaches k (push s) t"
    using run_ops_reaches [OF assms(1,2) reaches_refl] .
  then obtain s' where "pop (Suc k) t = Inr s'" "restored s s'"
    using pop_restores by blast
  then have "\<exists>s'. pop (Suc k) t = Inr s' \<and> restored s s' \<and> (\<forall>sz. num_vars s' sz = num_vars s sz)"
    using restored_num_vars by blast
  then show ?thesis using viable_trail_exact [OF assms(3)] by blast
qed

text \<open>
  Claim C9. After \<^verbatim>\<open>mono2var\<close> has returned \<open>x\<close> for a width and a sequence of variables,
  and after any further operations whose pops undo only levels pushed since (no pop
  crosses the creation), \<^verbatim>\<open>mono2var\<close> returns \<open>x\<close> again for the same key and changes
  nothing. \<^verbatim>\<open>pvar2var(sz, v)\<close> is \<^verbatim>\<open>mono2var\<close> at the one-element sequence \<open>[v]\<close>.
\<close>

theorem interning_determinism:
  assumes "mono2var sz vs s = (x, s1)" "run_ops ops s1 = Inr s2" "depth_after ops 0 = Some k"
  shows "mono2var sz vs s2 = (x, s2) \<and> pvar2var sz' v s' = mono2var sz' [v] s'"
proof -
  obtain m where m: "m_mono2var s1 (sz, vs) = Some m" "mi_var m = x"
    using mono2var_table [OF assms(1)] by blast
  have "reaches k s1 s2" using run_ops_reaches [OF assms(2,3) reaches_refl] .
  then have "m_mono2var s2 (sz, vs) = Some m" using reaches_table m(1) by blast
  then show ?thesis using m(2) by (simp add: mono2var_def pvar2var_def)
qed

lemma fix_set_fix_set: "fix_set (fix_set fx i a) i b = fix_set fx i b"
  by (simp add: fix_set_def reserve_def)

lemma sumE_Inr: "(case r of Inr t \<Rightarrow> True | Inl e \<Rightarrow> False) \<Longrightarrow> \<exists>t. r = Inr t"
  by (cases r) auto

text \<open>
  Claim C4 fails on the code. In \<^verbatim>\<open>assert_le\<close> the flag \<^verbatim>\<open>is_max_value\<close> is the constant
  false, so for \<open>v \<le> c\<close> asserted negatively with \<open>c\<close> the largest value of the width the
  exception is never thrown: the call returns normally, having given the engine the
  bound \<open>[2^width, 0)\<close> for \<open>v\<close> and pushed a \<^verbatim>\<open>set_bound_i\<close> entry. With a constant right-hand
  side no polarity makes \<^verbatim>\<open>assert_le\<close> raise the unimplemented conflict.
\<close>

theorem assert_le_max_constant_wraps:
  assumes "is_val rhs" "val rhs + 1 = 2 ^ power_of_2 lhs" "bvar < length (m_bool_var2row s)"
    and "engine_at (power_of_2 lhs) s = Some e"
  shows "assert_le bvar l_false lhs rhs s =
           Inr (push_bound (fst (m_bool_var2row s ! bvar)) (power_of_2 lhs)
                  (s\<lparr>m_fix := fix_set (m_fix s) (power_of_2 lhs)
                        (Some (e\<lparr>fp_bounds := Bounds (fst (m_bool_var2row s ! bvar)) (2 ^ power_of_2 lhs) 0
                                              # fp_bounds e\<rparr>))\<rparr>))
       \<and> activate_constraint (ule_constraint bvar l_false lhs rhs) s = assert_le bvar l_false lhs rhs s
       \<and> assert_le bvar sign lhs rhs s \<noteq> Inl Conflict_not_implemented"
proof -
  let ?sz = "power_of_2 lhs"
  obtain v w where vw: "m_bool_var2row s ! bvar = (v, w)" by (cases "m_bool_var2row s ! bvar")
  let ?s1 = "s\<lparr>m_fix := fix_set (m_fix s) ?sz (Some e)\<rparr>"
  have s1: "sz2fixplex ?sz s = Inr ?s1" unfolding sz2fixplex_eq using assms(4) by simp
  have e1: "engine_at ?sz ?s1 = Some e" by (simp add: engine_at_def fix_get_fix_set)
  have o: "on_fixplex ?sz f ?s1 =
             (case f e of Inl x \<Rightarrow> Inl x
              | Inr e' \<Rightarrow> Inr (s\<lparr>m_fix := fix_set (m_fix s) ?sz (Some e')\<rparr>))" for f
    unfolding on_fixplex_eq e1 by (simp add: fix_set_fix_set split: sum.splits)
  have 1: "assert_le bvar l_false lhs rhs s =
           Inr (push_bound v ?sz
                  (s\<lparr>m_fix := fix_set (m_fix s) ?sz
                        (Some (e\<lparr>fp_bounds := Bounds v (2 ^ ?sz) 0 # fp_bounds e\<rparr>))\<rparr>))"
    using assms(1,2,3) vw s1
    by (simp add: assert_le_def Let_def o fp_set_bounds_def)
  have 2: "activate_constraint (ule_constraint bvar l_false lhs rhs) s = assert_le bvar l_false lhs rhs s"
    by (simp add: activate_constraint_def)
  have 3: "assert_le bvar sign lhs rhs s \<noteq> Inl Conflict_not_implemented"
    using assms(1,3) vw s1
    by (simp add: assert_le_def Let_def o fp_set_bounds_def)
  show ?thesis using 1 2 3 vw by simp
qed

text \<open>
  The hypotheses at width 32: \<open>v\<^sub>0 \<le> 2^32 - 1\<close> registered, then asserted negatively; the
  engine receives the lower bound \<open>2^32\<close>.
\<close>

theorem assert_le_max_constant_wraps_witness:
  "\<exists>s. new_constraint (ule_constraint 0 l_undef \<lparr>power_of_2 = 32, monomials = [(1, [0])]\<rparr>
            \<lparr>power_of_2 = 32, monomials = [(4294967295, [])]\<rparr>) (init_solver (\<lambda>v. 32)) = Inr s
     \<and> is_val \<lparr>power_of_2 = 32, monomials = [(4294967295, [])]\<rparr>
     \<and> val \<lparr>power_of_2 = 32, monomials = [(4294967295, [])]\<rparr> + 1 = 2 ^ 32
     \<and> m_bool_var2row s = [(0, 2)]
     \<and> engine_at 32 s = Some \<lparr>fp_bits = 32, fp_rows = [(2, [1, 2], [4294967295, 4294967295])],
                               fp_bounds = [], fp_ineqs = []\<rparr>
     \<and> activate_constraint (ule_constraint 0 l_false \<lparr>power_of_2 = 32, monomials = [(1, [0])]\<rparr>
            \<lparr>power_of_2 = 32, monomials = [(4294967295, [])]\<rparr>) s =
         Inr (push_bound 0 32
               (s\<lparr>m_fix := fix_set (m_fix s) 32
                  (Some \<lparr>fp_bits = 32, fp_rows = [(2, [1, 2], [4294967295, 4294967295])],
                         fp_bounds = [Bounds 0 4294967296 0], fp_ineqs = []\<rparr>)\<rparr>))"
proof -
  let ?lhs = "\<lparr>power_of_2 = 32, monomials = [(1, [0])]\<rparr>"
  let ?rhs = "\<lparr>power_of_2 = 32, monomials = [(4294967295, [])]\<rparr>"
  let ?e = "\<lparr>fp_bits = 32, fp_rows = [(2, [1, 2], [4294967295, 4294967295])],
             fp_bounds = [], fp_ineqs = []\<rparr>"
  have "case new_constraint (ule_constraint 0 l_undef ?lhs ?rhs) (init_solver (\<lambda>v. 32)) of
          Inr s \<Rightarrow> m_bool_var2row s = [(0, 2)] \<and> engine_at 32 s = Some ?e
        | Inl x \<Rightarrow> False"
    by code_simp
  then obtain s where s: "new_constraint (ule_constraint 0 l_undef ?lhs ?rhs) (init_solver (\<lambda>v. 32)) = Inr s"
    "m_bool_var2row s = [(0, 2)]" "engine_at 32 s = Some ?e"
    by (cases "new_constraint (ule_constraint 0 l_undef ?lhs ?rhs) (init_solver (\<lambda>v. 32))") auto
  have h: "is_val ?rhs" "val ?rhs + 1 = 2 ^ power_of_2 ?lhs" "0 < length (m_bool_var2row s)"
    "engine_at (power_of_2 ?lhs) s = Some ?e"
    using s by (simp_all add: is_val_def val_def)
  from assert_le_max_constant_wraps [OF h, of l_false]
  have "activate_constraint (ule_constraint 0 l_false ?lhs ?rhs) s =
         Inr (push_bound 0 32
               (s\<lparr>m_fix := fix_set (m_fix s) 32
                  (Some \<lparr>fp_bits = 32, fp_rows = [(2, [1, 2], [4294967295, 4294967295])],
                         fp_bounds = [Bounds 0 4294967296 0], fp_ineqs = []\<rparr>)\<rparr>))"
    using s(2) by simp
  then show ?thesis using s h by (intro exI [of _ s]) simp
qed

text \<open>
  The hypotheses on a run that sets a bound, opens and closes an inner level around a
  new monomial, and registers and asserts \<open>2*v\<^sub>0 = 0\<close>; and on two domain mutations.
\<close>

theorem trail_exactness_witness:
  "\<exists>t vt. run_ops [Set_bound 0 1 5, Push, Mono2var 32 [0, 1], Pop 1,
                    New_constraint (eq_constraint 0 l_undef \<lparr>power_of_2 = 32, monomials = [(2, [0])]\<rparr>),
                    Activate_constraint (eq_constraint 0 l_true \<lparr>power_of_2 = 32, monomials = [(2, [0])]\<rparr>)]
             (push (init_solver (\<lambda>v. 32))) = Inr t
     \<and> depth_after [Set_bound 0 1 5, Push, Mono2var 32 [0, 1], Pop 1,
                    New_constraint (eq_constraint 0 l_undef \<lparr>power_of_2 = 32, monomials = [(2, [0])]\<rparr>),
                    Activate_constraint (eq_constraint 0 l_true \<lparr>power_of_2 = 32, monomials = [(2, [0])]\<rparr>)] 0
         = Some 0
     \<and> run_viable_ops [Intersect_eq 3 0 1 True, Add_non_viable 0 85] (init_viable [8]) = Inr vt
     \<and> (\<exists>s'. pop (Suc 0) t = Inr s' \<and> restored (init_solver (\<lambda>v. 32)) s')
     \<and> (\<exists>vs'. pop_viable_n 2 vt = Inr vs' \<and> m_viable vs' = m_viable (init_viable [8]))"
proof -
  let ?ops = "[Set_bound 0 1 5, Push, Mono2var 32 [0, 1], Pop 1,
                    New_constraint (eq_constraint 0 l_undef \<lparr>power_of_2 = 32, monomials = [(2, [0])]\<rparr>),
                    Activate_constraint (eq_constraint 0 l_true \<lparr>power_of_2 = 32, monomials = [(2, [0])]\<rparr>)]"
  let ?vops = "[Intersect_eq 3 0 1 True, Add_non_viable 0 85]"
  have "case run_ops ?ops (push (init_solver (\<lambda>v. 32))) of Inr t \<Rightarrow> True | Inl e \<Rightarrow> False"
    by code_simp
  then obtain t where t: "run_ops ?ops (push (init_solver (\<lambda>v. 32))) = Inr t"
    using sumE_Inr by blast
  have "case run_viable_ops ?vops (init_viable [8]) of Inr t \<Rightarrow> True | Inl e \<Rightarrow> False"
    by code_simp
  then obtain vt where vt: "run_viable_ops ?vops (init_viable [8]) = Inr vt"
    using sumE_Inr by blast
  have d: "depth_after ?ops 0 = Some 0" by simp
  have l: "length ?vops = 2" by simp
  from trail_exactness [OF t d vt] obtain s' vs' where r: "pop (Suc 0) t = Inr s'"
    "restored (init_solver (\<lambda>v. 32)) s'" "pop_viable_n (length ?vops) vt = Inr vs'"
    "m_viable vs' = m_viable (init_viable [8])" by blast
  have "pop_viable_n 2 vt = Inr vs'" using r(3) by (simp only: l)
  then show ?thesis using t d vt r(1,2,4) by blast
qed

text \<open>The hypotheses with a pushed and popped bound and another monomial in between.\<close>

theorem interning_determinism_witness:
  "\<exists>x s1 s2. mono2var 32 [0, 1] (init_solver (\<lambda>v. 32)) = (x, s1)
     \<and> run_ops [Push, Set_bound 0 1 5, Pop 1, Mono2var 32 [2]] s1 = Inr s2
     \<and> depth_after [Push, Set_bound 0 1 5, Pop 1, Mono2var 32 [2]] 0 = Some 0
     \<and> mono2var 32 [0, 1] s2 = (x, s2)"
proof -
  let ?ops = "[Push, Set_bound 0 1 5, Pop 1, Mono2var 32 [2]]"
  obtain x s1 where a: "mono2var 32 [0, 1] (init_solver (\<lambda>v. 32)) = (x, s1)"
    by (cases "mono2var 32 [0, 1] (init_solver (\<lambda>v. 32))")
  have "case run_ops ?ops (snd (mono2var 32 [0, 1] (init_solver (\<lambda>v. 32)))) of
          Inr t \<Rightarrow> True | Inl e \<Rightarrow> False"
    by code_simp
  then obtain s2 where b: "run_ops ?ops s1 = Inr s2"
    using sumE_Inr a by fastforce
  have d: "depth_after ?ops 0 = Some 0" by simp
  from interning_determinism [OF a b d] show ?thesis using a b d by blast
qed

text \<open>
  Claim C5 as stated fails on the order. With the partition of width 64 created before
  that of width 32 and the 64-bit engine infeasible, a walk in creation order consults
  the 64-bit engine only; \<^verbatim>\<open>check\<close> consults the 32-bit engine first and then the 64-bit one.
\<close>

theorem check_creation_order_counterexample:
  "sz2fixplex 64 (init_solver (\<lambda>v. 64)) =
     Inr ((init_solver (\<lambda>v. 64))\<lparr>m_fix := fix_set [] 64 (Some (mk_fixplex 64))\<rparr>)
   \<and> sz2fixplex 32 ((init_solver (\<lambda>v. 64))\<lparr>m_fix := fix_set [] 64 (Some (mk_fixplex 64))\<rparr>) =
     Inr ((init_solver (\<lambda>v. 64))
            \<lparr>m_fix := fix_set (fix_set [] 64 (Some (mk_fixplex 64))) 32 (Some (mk_fixplex 32))\<rparr>)
   \<and> checked_widths (\<lambda>f. (if fp_bits f = 64 then l_false else l_true, f))
        ((init_solver (\<lambda>v. 64))
            \<lparr>m_fix := fix_set (fix_set [] 64 (Some (mk_fixplex 64))) 32 (Some (mk_fixplex 32))\<rparr>)
      = [32, 64]
   \<and> check_in_order (\<lambda>f. (if fp_bits f = 64 then l_false else l_true, f)) [64, 32]
        (fix_set (fix_set [] 64 (Some (mk_fixplex 64))) 32 (Some (mk_fixplex 32))) l_true
      = (l_false, [64])"
proof -
  let ?s = "init_solver (\<lambda>v. 64)"
  have m: "m_fix ?s = []" by (simp add: init_solver_def)
  have a: "sz2fixplex 64 ?s = Inr (?s\<lparr>m_fix := fix_set [] 64 (Some (mk_fixplex 64))\<rparr>)"
    by (simp add: sz2fixplex_def m fix_get_def)
  have b: "sz2fixplex 32 (?s\<lparr>m_fix := fix_set [] 64 (Some (mk_fixplex 64))\<rparr>) =
     Inr (?s\<lparr>m_fix := fix_set (fix_set [] 64 (Some (mk_fixplex 64))) 32 (Some (mk_fixplex 32))\<rparr>)"
    by (simp add: sz2fixplex_def fix_get_fix_set) (simp add: fix_get_def)
  have c: "checked_widths (\<lambda>f. (if fp_bits f = 64 then l_false else l_true, f))
        (?s\<lparr>m_fix := fix_set (fix_set [] 64 (Some (mk_fixplex 64))) 32 (Some (mk_fixplex 32))\<rparr>)
      = [32, 64]" by code_simp
  have d: "check_in_order (\<lambda>f. (if fp_bits f = 64 then l_false else l_true, f)) [64, 32]
        (fix_set (fix_set [] 64 (Some (mk_fixplex 64))) 32 (Some (mk_fixplex 32))) l_true
      = (l_false, [64])" by code_simp
  show ?thesis using a b c d by simp
qed

text \<open>
  The hypothesis with engines of widths 64 and 32, the 64-bit one infeasible: both are
  consulted, the 32-bit engine first.
\<close>

theorem check_first_infeasible_in_width_order_witness:
  "check_loop (\<lambda>f. (if fp_bits f = 64 then l_false else l_true, f)) 0
      (m_fix ((init_solver (\<lambda>v. 64))
            \<lparr>m_fix := fix_set (fix_set [] 64 (Some (mk_fixplex 64))) 32 (Some (mk_fixplex 32))\<rparr>)) l_true
     = (l_false, [32, 64], fix_set (fix_set [] 64 (Some (mk_fixplex 64))) 32 (Some (mk_fixplex 32)))
   \<and> fst (check (\<lambda>f. (if fp_bits f = 64 then l_false else l_true, f))
        ((init_solver (\<lambda>v. 64))
            \<lparr>m_fix := fix_set (fix_set [] 64 (Some (mk_fixplex 64))) 32 (Some (mk_fixplex 32))\<rparr>)) = l_false
   \<and> allocated (fix_set (fix_set [] 64 (Some (mk_fixplex 64))) 32 (Some (mk_fixplex 32))) = [32, 64]"
proof -
  let ?mf = "\<lambda>f. (if fp_bits f = 64 then l_false else l_true, f)"
  let ?fx = "fix_set (fix_set [] 64 (Some (mk_fixplex 64))) 32 (Some (mk_fixplex 32))"
  let ?s = "(init_solver (\<lambda>v. 64))\<lparr>m_fix := ?fx\<rparr>"
  have m: "m_fix ?s = ?fx" by simp
  have a: "check_loop ?mf 0 ?fx l_true = (l_false, [32, 64], ?fx)" by code_simp
  have al: "allocated ?fx = [32, 64]" by code_simp
  from check_first_infeasible_in_width_order [of ?mf ?s l_false "[32, 64]" ?fx]
  have "check ?mf ?s = (l_false, ?s\<lparr>m_fix := ?fx\<rparr>)" using a unfolding m by blast
  then show ?thesis using a al unfolding m by simp
qed

subsection \<open>Engines stay at the supported widths\<close>

lemma engine_bits_kept:
  "fp_set_bounds v l h e = Inr e' \<Longrightarrow> fp_bits e' = fp_bits e"
  "fp_set_value v x e = Inr e' \<Longrightarrow> fp_bits e' = fp_bits e"
  "add_le v w e = Inr e' \<Longrightarrow> fp_bits e' = fp_bits e"
  "add_lt v w e = Inr e' \<Longrightarrow> fp_bits e' = fp_bits e"
  "add_row v vs cs e = Inr e' \<Longrightarrow> fp_bits e' = fp_bits e"
  "restore_bound e = Inr e' \<Longrightarrow> fp_bits e' = fp_bits e"
  "restore_ineq e = Inr e' \<Longrightarrow> fp_bits e' = fp_bits e"
  "del_row v e = Inr e' \<Longrightarrow> fp_bits e' = fp_bits e"
  by (auto simp: fp_set_bounds_def fp_set_value_def add_le_def add_lt_def add_row_def
        restore_bound_def restore_ineq_def del_row_def split: list.splits option.splits)

lemma fix_ok_on_fixplex:
  assumes "fix_ok (m_fix s)" "on_fixplex sz f s = Inr s1"
    and "\<And>e e'. f e = Inr e' \<Longrightarrow> fp_bits e' = fp_bits e"
  shows "fix_ok (m_fix s1)"
proof -
  obtain e e' where e: "engine_at sz s = Some e" "f e = Inr e'"
    "s1 = s\<lparr>m_fix := fix_set (m_fix s) sz (Some e')\<rparr>"
    using assms(2) unfolding on_fixplex_eq by (auto split: option.splits sum.splits)
  have "(sz = 32 \<or> sz = 64 \<or> sz = 256) \<and> fp_bits e = sz"
    using e(1) assms(1) fix_ok_iff [of "m_fix s"]
    by (auto simp: engine_at_def mk_fixplex_def split: option.splits if_splits)
  moreover have "fp_bits e' = fp_bits e" using assms(3) [OF e(2)] .
  ultimately have "\<And>i b. fix_get (fix_set (m_fix s) sz (Some e')) i = Some b \<Longrightarrow>
                    (i = 32 \<or> i = 64 \<or> i = 256) \<and> fp_bits b = i"
    using assms(1) fix_ok_iff [of "m_fix s"] by (simp add: fix_get_fix_set split: if_splits)
  then show ?thesis unfolding e(3) fix_ok_iff by simp
qed

lemma fix_ok_sz2fixplex:
  assumes "fix_ok (m_fix s)" "sz2fixplex sz s = Inr s1"
  shows "fix_ok (m_fix s1)"
proof -
  have "on_fixplex sz Inr s = Inr s1"
    using assms(2) unfolding on_fixplex_eq sz2fixplex_eq by (simp split: option.splits)
  then show ?thesis using fix_ok_on_fixplex [OF assms(1)] by blast
qed

lemma m_fix_mono2var [simp]: "m_fix (snd (mono2var sz vs s)) = m_fix s"
  by (simp add: mono2var_def fresh_var_def Let_def split: option.splits)

lemma m_fix_linearize_loop [simp]: "m_fix (linearize_loop sz ms s) = m_fix s"
proof (induction ms arbitrary: s)
  case Nil
  then show ?case by simp
next
  case (Cons m ms)
  obtain v s1 where a: "mono2var sz (snd m) s = (v, s1)" by (cases "mono2var sz (snd m) s")
  then have "m_fix s1 = m_fix s" using m_fix_mono2var [of sz "snd m" s] by simp
  then show ?case using Cons a by simp
qed

lemma fix_ok_internalize_pdd:
  assumes "fix_ok (m_fix s)" "internalize_pdd p s = Inr (v, t)"
  shows "fix_ok (m_fix t)"
proof -
  let ?sz = "power_of_2 p"
  let ?s1 = "linearize p s"
  have 1: "m_fix ?s1 = m_fix s" by (simp add: linearize_def)
  show ?thesis
  proof (cases "length (m_vars ?s1) = 1 \<and> last (m_coeffs ?s1) = 1")
    case True
    then have "internalize_pdd p s = Inr (last (m_vars ?s1), ?s1)"
      unfolding internalize_pdd_def Let_def by simp
    then have "t = ?s1" using assms(2) by simp
    then show ?thesis using 1 assms(1) by simp
  next
    case False
    obtain w s2 where f: "fresh_var ?sz ?s1 = (w, s2)" by (cases "fresh_var ?sz ?s1")
    let ?s3 = "s2\<lparr>m_vars := m_vars s2 @ [w], m_coeffs := m_coeffs s2 @ [2 ^ ?sz - 1]\<rparr>"
    have eq: "internalize_pdd p s =
        (case on_fixplex ?sz (add_row w (m_vars s2 @ [w]) (m_coeffs s2 @ [2 ^ ?sz - 1])) ?s3 of
           Inl e \<Rightarrow> Inl e
         | Inr s4 \<Rightarrow> Inr (w, s4\<lparr>m_rows := (w, ?sz) # m_rows s4, m_trail := add_row_i # m_trail s4\<rparr>))"
      unfolding internalize_pdd_def Let_def by (simp only: False if_False f prod.case)
    define r where "r = on_fixplex ?sz (add_row w (m_vars s2 @ [w]) (m_coeffs s2 @ [2 ^ ?sz - 1])) ?s3"
    have c: "(case r of Inl e \<Rightarrow> Inl e
              | Inr s4 \<Rightarrow> Inr (w, s4\<lparr>m_rows := (w, ?sz) # m_rows s4, m_trail := add_row_i # m_trail s4\<rparr>))
             = Inr (v, t)"
      using assms(2) eq unfolding r_def by simp
    obtain s4 where o': "r = Inr s4" using c by (cases r) simp_all
    have "Inr (w, s4\<lparr>m_rows := (w, ?sz) # m_rows s4, m_trail := add_row_i # m_trail s4\<rparr>)
            = (Inr (v, t) :: error + var_t \<times> linear_solver)"
      using c unfolding o' by (simp only: sum.case)
    then have t: "t = s4\<lparr>m_rows := (w, ?sz) # m_rows s4, m_trail := add_row_i # m_trail s4\<rparr>"
      by blast
    have "m_fix s2 = m_fix s" using f 1 fresh_var_fields(3) [of ?sz ?s1] by simp
    then have "fix_ok (m_fix ?s3)" using assms(1) by simp
    then have "fix_ok (m_fix s4)"
      using fix_ok_on_fixplex [OF _ o' [unfolded r_def]] engine_bits_kept(5) by blast
    then show ?thesis unfolding t by simp
  qed
qed

lemma push_bound_fix [simp]: "m_fix (push_bound v sz s) = m_fix s"
  by (simp add: push_bound_def)

lemma fix_ok_apply_op:
  assumes "fix_ok (m_fix s)" "apply_op x s = Inr t" "\<And>n. x \<noteq> Pop n"
  shows "fix_ok (m_fix t)"
proof (cases x)
  case Push
  then show ?thesis using assms by (auto simp: push_def)
next
  case (Pop n)
  then show ?thesis using assms(3) by simp
next
  case (New_constraint c)
  show ?thesis
  proof (cases c)
    case (eq_constraint bvar sign p)
    then obtain v s1 where "internalize_pdd p s = Inr (v, s1)"
      "t = s1\<lparr>m_bool_var2row := setx (m_bool_var2row s1) bvar (v, v) (v, v)\<rparr>"
      using assms(2) New_constraint by (auto simp: new_constraint_def new_eq_def split: sum.splits)
    then show ?thesis using fix_ok_internalize_pdd [OF assms(1)] by auto
  next
    case (ule_constraint bvar sign lhs rhs)
    then obtain v s1 w s2 where a: "internalize_pdd lhs s = Inr (v, s1)" "internalize_pdd rhs s1 = Inr (w, s2)"
      "t = s2\<lparr>m_bool_var2row := setx (m_bool_var2row s2) bvar (v, w) (v, w)\<rparr>"
      using assms(2) New_constraint by (auto simp: new_constraint_def new_le_def split: sum.splits)
    show ?thesis unfolding a(3)
      using fix_ok_internalize_pdd [OF fix_ok_internalize_pdd [OF assms(1) a(1)] a(2)] by simp
  next
    case (other_constraint bvar sign)
    then show ?thesis using assms(2) New_constraint by (simp add: new_constraint_def)
  qed
next
  case (Activate_constraint c)
  show ?thesis
  proof (cases c)
    case (eq_constraint bvar sign p)
    then have e: "assert_eq bvar sign p s = Inr t"
      using assms(2) Activate_constraint by (auto simp: activate_constraint_def split: if_splits)
    let ?v = "fst (m_bool_var2row s ! bvar)"
    obtain s1 where a: "sz2fixplex (power_of_2 p) s = Inr s1"
      "on_fixplex (power_of_2 p)
         (if sign = l_true then fp_set_bounds ?v 0 0 else fp_set_bounds ?v 1 0)
         (push_bound ?v (power_of_2 p) s1) = Inr t"
      using e by (auto simp: assert_eq_def split: sum.splits if_splits)
    have "fix_ok (m_fix (push_bound ?v (power_of_2 p) s1))"
      using fix_ok_sz2fixplex [OF assms(1) a(1)] by simp
    then show ?thesis
      by (rule fix_ok_on_fixplex [OF _ a(2)]) (auto simp: engine_bits_kept(1) split: if_splits)
  next
    case (ule_constraint bvar sign lhs rhs)
    then have e: "assert_le bvar sign lhs rhs s = Inr t"
      using assms(2) Activate_constraint by (auto simp: activate_constraint_def split: if_splits)
    let ?sz = "power_of_2 lhs"
    obtain v w where vw: "m_bool_var2row s ! bvar = (v, w)" by (cases "m_bool_var2row s ! bvar")
    obtain s1 where s1: "sz2fixplex ?sz s = Inr s1"
      using e vw by (auto simp: assert_le_def split: sum.splits if_splits)
    have ok1: "fix_ok (m_fix s1)" by (rule fix_ok_sz2fixplex [OF assms(1) s1])
    have b: "fix_ok (m_fix s2)" if "on_fixplex ?sz (fp_set_bounds x l h) s1 = Inr s2" for x l h s2
      using fix_ok_on_fixplex [OF ok1 that] engine_bits_kept(1) by blast
    have c: "fix_ok (m_fix s2)" if "on_fixplex ?sz (add_le x y) s1 = Inr s2" for x y s2
      using fix_ok_on_fixplex [OF ok1 that] engine_bits_kept(3) by blast
    have d: "fix_ok (m_fix s2)" if "on_fixplex ?sz (add_lt x y) s1 = Inr s2" for x y s2
      using fix_ok_on_fixplex [OF ok1 that] engine_bits_kept(4) by blast
    show ?thesis using e vw s1
      by (auto simp: assert_le_def Let_def split: sum.splits if_splits dest: b c d)
  next
    case (other_constraint bvar sign)
    then show ?thesis using assms(2) Activate_constraint by (simp add: activate_constraint_def)
  qed
next
  case (Set_value v x')
  let ?sz = "ls_size s v"
  obtain s1 w s2 where a: "sz2fixplex ?sz s = Inr s1" "pvar2var ?sz v s1 = (w, s2)"
    "on_fixplex ?sz (fp_set_value w x') (push_bound w ?sz s2) = Inr t"
    using assms(2) Set_value by (auto simp: set_value_def split: sum.splits prod.splits)
  have "m_fix s2 = m_fix s1" using a(2) m_fix_mono2var [of ?sz "[v]" s1] by (simp add: pvar2var_def)
  then have "fix_ok (m_fix (push_bound w ?sz s2))" using fix_ok_sz2fixplex [OF assms(1) a(1)] by simp
  then show ?thesis by (rule fix_ok_on_fixplex [OF _ a(3)]) (simp add: engine_bits_kept(2))
next
  case (Set_bound v l h)
  let ?sz = "ls_size s v"
  obtain s1 w s2 where a: "sz2fixplex ?sz s = Inr s1" "pvar2var ?sz v s1 = (w, s2)"
    "on_fixplex ?sz (fp_set_bounds w l h) (push_bound w ?sz s2) = Inr t"
    using assms(2) Set_bound by (auto simp: set_bound_def split: sum.splits prod.splits)
  have "m_fix s2 = m_fix s1" using a(2) m_fix_mono2var [of ?sz "[v]" s1] by (simp add: pvar2var_def)
  then have "fix_ok (m_fix (push_bound w ?sz s2))" using fix_ok_sz2fixplex [OF assms(1) a(1)] by simp
  then show ?thesis by (rule fix_ok_on_fixplex [OF _ a(3)]) (simp add: engine_bits_kept(1))
next
  case (Mono2var sz vs)
  then show ?thesis using assms by auto
next
  case (Pvar2var sz v)
  then show ?thesis using assms by (auto simp: pvar2var_def)
next
  case (Fresh_var sz)
  then show ?thesis using assms by (auto simp: fresh_var_fields(3))
next
  case (Internalize_pdd p)
  then obtain v where "internalize_pdd p s = Inr (v, t)"
    using assms(2) by (cases "internalize_pdd p s") auto
  then show ?thesis using fix_ok_internalize_pdd [OF assms(1)] by blast
qed

lemma fix_ok_undo_entry:
  assumes "fix_ok (m_fix s)" "undo_entry e s = Inr t"
  shows "fix_ok (m_fix t)"
proof (cases e)
  case set_bound_i
  then obtain v sz rs s1 where "on_fixplex sz restore_bound s = Inr s1" "t = s1\<lparr>m_rows := rs\<rparr>"
    using assms(2) by (auto simp: undo_entry_def split: list.splits sum.splits)
  then show ?thesis using fix_ok_on_fixplex [OF assms(1)] engine_bits_kept(6) by fastforce
next
  case add_row_i
  then obtain v sz rs s1 where "on_fixplex sz (del_row v) s = Inr s1" "t = s1\<lparr>m_rows := rs\<rparr>"
    using assms(2) by (auto simp: undo_entry_def split: list.splits sum.splits)
  then show ?thesis using fix_ok_on_fixplex [OF assms(1)] engine_bits_kept(8) by fastforce
next
  case add_ineq_i
  then obtain v sz rs s1 where "on_fixplex sz restore_ineq s = Inr s1" "t = s1\<lparr>m_rows := rs\<rparr>"
    using assms(2) by (auto simp: undo_entry_def split: list.splits sum.splits)
  then show ?thesis using fix_ok_on_fixplex [OF assms(1)] engine_bits_kept(7) by fastforce
qed (use assms in \<open>auto simp: undo_entry_def split: list.splits if_splits\<close>)

lemma fix_ok_pop_loop:
  "fix_ok (m_fix s) \<Longrightarrow> pop_loop n tr s = Inr t \<Longrightarrow> fix_ok (m_fix t)"
proof (induction n tr s rule: pop_loop.induct)
  case (1 tr s)
  then show ?case by simp
next
  case (2 n s)
  then show ?case by simp
next
  case (3 n e tr s)
  obtain s1 where s1: "undo_entry e s = Inr s1"
    "pop_loop (if e = inc_level_i then n else Suc n) tr (s1\<lparr>m_trail := tr\<rparr>) = Inr t"
    using "3.prems"(2) by (auto split: sum.splits)
  have "fix_ok (m_fix (s1\<lparr>m_trail := tr\<rparr>))" using fix_ok_undo_entry [OF "3.prems"(1) s1(1)] by simp
  then show ?case using "3.IH" [OF s1(1) _ s1(2)] by simp
qed

text \<open>
  The invariant of the engine table holds from the start and through every sequence of
  operations.
\<close>

lemma fix_ok_run_ops:
  "fix_ok (m_fix s) \<Longrightarrow> run_ops ops s = Inr t \<Longrightarrow> fix_ok (m_fix t)"
proof (induction ops arbitrary: s)
  case Nil
  then show ?case by simp
next
  case (Cons x xs)
  obtain s1 where s1: "apply_op x s = Inr s1" "run_ops xs s1 = Inr t"
    using Cons.prems(2) by (auto split: sum.splits)
  have "fix_ok (m_fix s1)"
  proof (cases "\<exists>n. x = Pop n")
    case True
    then show ?thesis using s1(1) fix_ok_pop_loop [OF Cons.prems(1)] by (auto simp: pop_def)
  next
    case False
    then show ?thesis using fix_ok_apply_op [OF Cons.prems(1) s1(1)] by blast
  qed
  then show ?case using Cons.IH s1(2) by blast
qed

lemma fix_ok_init: "fix_ok (m_fix (init_solver sizes))"
  by (simp add: init_solver_def fix_ok_def)


end
